theory Spec2Isabelle
  imports Main "HOL-Library.Multiset"
begin

section \<open>Cards and the deck library\<close>

text \<open>
  The round engine of \<^verbatim>\<open>src/model/round.ts\<close>. The card and deck modules
  (\<^verbatim>\<open>uno.ts\<close>, \<^verbatim>\<open>deck.ts\<close>) are imported by the engine but are not part of it:
  the colour type is a type parameter \<open>'c\<close>, and what the engine calls in those modules is
  collected in a record of parameters.

  A card is a tagged value; the engine reads \<^verbatim>\<open>card.type\<close>, \<^verbatim>\<open>card.color\<close>
  (absent on the wild variants) and \<^verbatim>\<open>card.number\<close>.
\<close>

datatype 'c card = NUMBERED 'c int | SKIP 'c | REVERSE 'c | DRAW 'c | WILD | WILD_DRAW

fun isWild :: "'c card \<Rightarrow> bool" where
  "isWild WILD = True"
| "isWild WILD_DRAW = True"
| "isWild _ = False"

fun colorOf :: "'c card \<Rightarrow> 'c option" where
  "colorOf (NUMBERED c n) = Some c"
| "colorOf (SKIP c) = Some c"
| "colorOf (REVERSE c) = Some c"
| "colorOf (DRAW c) = Some c"
| "colorOf WILD = None"
| "colorOf WILD_DRAW = None"

text \<open>
  \<open>colors\<close> is \<^verbatim>\<open>deck.colors\<close>; \<open>canPlayCard\<close> is \<^verbatim>\<open>canPlay\<close> of
  \<^verbatim>\<open>uno.ts\<close> (card, top card, enforced colour; the top card is \<open>None\<close> where the
  engine would pass \<^verbatim>\<open>undefined\<close>); \<open>cardOk\<close> is the per-record check of
  \<^verbatim>\<open>deck.fromMemento\<close>.
\<close>

record 'c deck_lib =
  colors :: "'c list"
  canPlayCard :: "'c card \<Rightarrow> 'c card option \<Rightarrow> 'c option \<Rightarrow> bool"
  cardOk :: "'c card \<Rightarrow> bool"

text \<open>
  Modelled from the spec: \<^verbatim>\<open>canPlay\<close> of \<^verbatim>\<open>uno.ts\<close>, which is not under src/.
  A card is playable if it is a wild variant, or if its colour matches the effective current
  colour (enforced colour if set, else the top card's colour), or if it shares the top card's
  rank/type for numbered/action matches.
\<close>

fun sameRank :: "'c card \<Rightarrow> 'c card \<Rightarrow> bool" where
  "sameRank (NUMBERED c n) (NUMBERED d m) = (n = m)"
| "sameRank (SKIP c) (SKIP d) = True"
| "sameRank (REVERSE c) (REVERSE d) = True"
| "sameRank (DRAW c) (DRAW d) = True"
| "sameRank _ _ = False"

definition specCanPlay :: "'c card \<Rightarrow> 'c card option \<Rightarrow> 'c option \<Rightarrow> bool" where
  "specCanPlay cd topc enforced =
     (isWild cd \<or>
      (case topc of
         None \<Rightarrow> False
       | Some t \<Rightarrow>
           (case enforced of
              Some e \<Rightarrow> colorOf cd = Some e
            | None \<Rightarrow> colorOf cd = colorOf t) \<or> sameRank cd t))"

text \<open>
  Modelled from the spec: the record check of \<^verbatim>\<open>deck.fromMemento\<close>, which is not under
  src/. A numbered card carries a colour and a digit 0 to 9, an action card a colour, and the
  colours are those of the fixed colour set.
\<close>

definition specCardOk :: "'c list \<Rightarrow> 'c card \<Rightarrow> bool" where
  "specCardOk cs cd =
     ((case colorOf cd of None \<Rightarrow> True | Some c \<Rightarrow> c \<in> set cs) \<and>
      (case cd of NUMBERED c n \<Rightarrow> 0 \<le> n \<and> n \<le> 9 | _ \<Rightarrow> True))"

definition specLib :: "'c list \<Rightarrow> 'c deck_lib" where
  "specLib cs = \<lparr> colors = cs, canPlayCard = specCanPlay, cardOk = specCardOk cs \<rparr>"

section \<open>Errors, numbers and the round state\<close>

text \<open>One constructor per \<^verbatim>\<open>throw\<close> of the source; \<open>TypeError\<close> is the
  engine dereferencing \<^verbatim>\<open>undefined\<close>, \<open>MalformedCard\<close> is
  \<^verbatim>\<open>deck.fromMemento\<close> rejecting a record.\<close>

datatype error =
    RoundHasFinished
  | NoPlayerInTurn
  | CardIndexOutOfBounds
  | CardCannotBePlayed
  | ColorMustBeSpecified
  | ColorOnlyForWild
  | InvalidColor
  | MustBeInteger string
  | IsOutOfBounds string
  | UnoTooManyCards
  | CurrentColorUndefined
  | NoCardsAvailable
  | CannotReplenish
  | TooFewPlayers
  | TooManyPlayers
  | UnknownDirection
  | HandsCountMismatch
  | MalformedCard
  | DiscardPileEmpty
  | MultipleWinners
  | PlayerInTurnRequired
  | CurrentColorMismatch
  | InitMultipleWinners
  | InitPlayerInTurnUndefined
  | CardsPerPlayerNotPositive
  | DeckExhaustedDealing
  | DeckExhaustedDiscard
  | DeckExhaustedDrawEffect
  | TypeError

text \<open>A JavaScript number used as an index: an integer, or any value for which
  \<^verbatim>\<open>Number.isInteger\<close> is false (a fraction, NaN, an infinity).\<close>

datatype jsnum = JInt int | JNonInteger

text \<open>The fields of \<^verbatim>\<open>RoundImpl\<close>. \<open>unoDeclared\<close> is read only for its truth value
  and an absent entry reads as false, so it is a function from indices. \<open>pendingUno\<close> is the
  pair (player, windowOpen). The shuffler is a parameter of the operations that use it and the
  end-of-round listeners are outside the model.\<close>

record 'c round =
  players :: "string list"
  dealer :: nat
  unoDeclared :: "nat \<Rightarrow> bool"
  hands :: "'c card list list"
  drawPileCards :: "'c card list"
  discardPileCards :: "'c card list"
  direction :: int
  currentPlayerIndex :: "nat option"
  enforcedColor :: "'c option"
  pendingUno :: "(nat \<times> bool) option"
  ended :: bool
  winnerIndex :: "nat option"
  cachedScore :: "int option"

definition playerCount :: "'c round \<Rightarrow> nat" where
  "playerCount s = length (players s)"

text \<open>An operation either returns or throws, and in both cases leaves a state behind.\<close>

type_synonym ('a, 'c) action = "'c round \<Rightarrow> (error + 'a) \<times> 'c round"

definition ret :: "'a \<Rightarrow> ('a, 'c) action" where
  "ret a = (\<lambda>s. (Inr a, s))"

definition throw :: "error \<Rightarrow> ('a, 'c) action" where
  "throw e = (\<lambda>s. (Inl e, s))"

definition andThen :: "('a, 'c) action \<Rightarrow> ('a \<Rightarrow> ('b, 'c) action) \<Rightarrow> ('b, 'c) action" where
  "andThen m f = (\<lambda>s. case m s of (Inl e, s') \<Rightarrow> (Inl e, s') | (Inr a, s') \<Rightarrow> f a s')"

definition modify :: "('c round \<Rightarrow> 'c round) \<Rightarrow> (unit, 'c) action" where
  "modify f = (\<lambda>s. (Inr (), f s))"

definition inspect :: "('c round \<Rightarrow> 'a) \<Rightarrow> ('a, 'c) action" where
  "inspect f = (\<lambda>s. (Inr (f s), s))"

section \<open>Module-level helpers\<close>

text \<open>\<^verbatim>\<open>%\<close> truncates towards zero; \<^verbatim>\<open>mod\<close> then normalises. A modulus of 0 (NaN in
  JavaScript) does not occur: the modulus is the player count.\<close>

definition jsRem :: "int \<Rightarrow> int \<Rightarrow> int" where
  "jsRem a b = sgn a * (\<bar>a\<bar> mod \<bar>b\<bar>)"

definition mod_js :: "int \<Rightarrow> int \<Rightarrow> int" where
  "mod_js v m = (let r = jsRem v m in if r \<ge> 0 then r else r + m)"

text \<open>\<^verbatim>\<open>ensureIndex\<close> returns nothing in the source; here it returns the index it has
  checked.\<close>

definition ensureIndex :: "jsnum \<Rightarrow> nat \<Rightarrow> string \<Rightarrow> error + nat" where
  "ensureIndex index cnt label =
     (case index of
        JNonInteger \<Rightarrow> Inl (MustBeInteger label)
      | JInt i \<Rightarrow> if i < 0 \<or> i \<ge> int cnt then Inl (IsOutOfBounds label) else Inr (nat i))"

definition validatePlayers :: "string list \<Rightarrow> error option" where
  "validatePlayers ps =
     (if length ps < 2 then Some TooFewPlayers
      else if length ps > 10 then Some TooManyPlayers
      else None)"

definition toDirection :: "string \<Rightarrow> error + int" where
  "toDirection label =
     (if label = ''clockwise'' then Inr 1
      else if label = ''counterclockwise'' then Inr (- 1)
      else Inl UnknownDirection)"

definition ensureColorValue :: "'c deck_lib \<Rightarrow> 'c \<Rightarrow> error + 'c" where
  "ensureColorValue L v = (if v \<in> set (colors L) then Inr v else Inl InvalidColor)"

text \<open>Modelled from the spec: \<^verbatim>\<open>deck.fromMemento\<close> (not under src/) validates every
  record and fails on a malformed one; the pile it builds deals from the front, so the
  cards come back in their order.\<close>

definition cloneCardsWithValidation :: "'c deck_lib \<Rightarrow> 'c card list \<Rightarrow> error + 'c card list" where
  "cloneCardsWithValidation L cards =
     (if list_all (cardOk L) cards then Inr cards else Inl MalformedCard)"

fun cardPoints :: "'c card \<Rightarrow> int" where
  "cardPoints (NUMBERED c n) = n"
| "cardPoints (SKIP c) = 20"
| "cardPoints (REVERSE c) = 20"
| "cardPoints (DRAW c) = 20"
| "cardPoints WILD = 50"
| "cardPoints WILD_DRAW = 50"

definition winners :: "'c card list list \<Rightarrow> nat list" where
  "winners hs = filter (\<lambda>i. hs ! i = []) [0..<length hs]"

section \<open>The constructor of RoundImpl\<close>

definition newRoundImpl ::
  "string list \<Rightarrow> nat \<Rightarrow> 'c card list list \<Rightarrow> 'c card list \<Rightarrow> 'c card list \<Rightarrow> int \<Rightarrow>
   nat option \<Rightarrow> 'c option \<Rightarrow> error + 'c round" where
  "newRoundImpl ps d hs dp disc dir cur ec =
     (let this = \<lparr> players = ps, dealer = d, unoDeclared = (\<lambda>_. False), hands = hs,
                   drawPileCards = dp, discardPileCards = disc, direction = dir,
                   currentPlayerIndex = cur, enforcedColor = ec, pendingUno = None,
                   ended = False, winnerIndex = None, cachedScore = None \<rparr>;
          ws = winners hs
      in if disc = [] then Inl DiscardPileEmpty
         else if length ws > 1 then Inl InitMultipleWinners
         else if length ws = 1
           then Inr (this\<lparr> ended := True, winnerIndex := Some (ws ! 0),
                          currentPlayerIndex := None \<rparr>)
         else if cur = None then Inl InitPlayerInTurnUndefined
         else Inr this)"

section \<open>Private methods\<close>

definition ensureActiveRound :: "(unit, 'c) action" where
  "ensureActiveRound = (\<lambda>s. if ended s then (Inl RoundHasFinished, s) else (Inr (), s))"

definition ensurePlayerIndex :: "jsnum \<Rightarrow> (nat, 'c) action" where
  "ensurePlayerIndex index =
     (\<lambda>s. case ensureIndex index (playerCount s) ''player'' of
             Inl e \<Rightarrow> (Inl e, s)
           | Inr i \<Rightarrow> (Inr i, s))"

text \<open>\<^verbatim>\<open>this.hands[p]\<close> followed by a read of the hand: a TypeError when \<open>p\<close> is not an
  index of \<open>hands\<close>.\<close>

definition handOf :: "nat \<Rightarrow> ('c card list, 'c) action" where
  "handOf p = (\<lambda>s. if p < length (hands s) then (Inr (hands s ! p), s) else (Inl TypeError, s))"

definition ensureCardIndex :: "nat \<Rightarrow> int \<Rightarrow> (unit, 'c) action" where
  "ensureCardIndex player cardIndex =
     andThen (handOf player) (\<lambda>hand.
       if cardIndex < 0 \<or> cardIndex \<ge> int (length hand) then throw CardIndexOutOfBounds
       else ret ())"

definition ensureCurrentPlayer :: "(nat, 'c) action" where
  "ensureCurrentPlayer =
     (\<lambda>s. case currentPlayerIndex s of
             None \<Rightarrow> (Inl NoPlayerInTurn, s)
           | Some c \<Rightarrow> (Inr c, s))"

definition topCard :: "'c round \<Rightarrow> 'c card option" where
  "topCard s = (if discardPileCards s = [] then None else Some (last (discardPileCards s)))"

definition currentColor :: "'c round \<Rightarrow> error + 'c" where
  "currentColor s =
     (case enforcedColor s of
        Some c \<Rightarrow> Inr c
      | None \<Rightarrow>
          (case topCard s of
             None \<Rightarrow> Inl TypeError
           | Some t \<Rightarrow> (case colorOf t of Some c \<Rightarrow> Inr c | None \<Rightarrow> Inl CurrentColorUndefined)))"

definition markActionBy :: "nat \<Rightarrow> (unit, 'c) action" where
  "markActionBy player =
     modify (\<lambda>s. case pendingUno s of
                   None \<Rightarrow> s
                 | Some (p, w) \<Rightarrow> if p \<noteq> player then s\<lparr> pendingUno := Some (p, False) \<rparr> else s)"

text \<open>The recurring statement
  \<^verbatim>\<open>if (this.pendingUno && this.pendingUno.player === player) this.pendingUno = undefined\<close>.\<close>

definition clearPendingOf :: "nat \<Rightarrow> 'c round \<Rightarrow> 'c round" where
  "clearPendingOf player s =
     (case pendingUno s of
        None \<Rightarrow> s
      | Some (p, w) \<Rightarrow> if p = player then s\<lparr> pendingUno := None \<rparr> else s)"

definition updateUnoStateFor :: "nat \<Rightarrow> (unit, 'c) action" where
  "updateUnoStateFor player =
     andThen (handOf player) (\<lambda>hand.
     andThen (modify (\<lambda>s.
        if length hand = 1 then
          (if \<not> unoDeclared s player then s\<lparr> pendingUno := Some (player, True) \<rparr>
           else clearPendingOf player s)
        else clearPendingOf player (s\<lparr> unoDeclared := (unoDeclared s)(player := False) \<rparr>))) (\<lambda>_.
     (\<lambda>s. case pendingUno s of
             None \<Rightarrow> (Inr (), s)
           | Some (p, w) \<Rightarrow>
               andThen (handOf p) (\<lambda>h.
                 if length h \<noteq> 1 then modify (\<lambda>s. s\<lparr> pendingUno := None \<rparr>) else ret ()) s)))"

text \<open>The shuffler works in place; \<open>sh\<close> maps the content of the array before the call to
  its content after.\<close>

definition refillDrawPile :: "('c card list \<Rightarrow> 'c card list) \<Rightarrow> (unit, 'c) action" where
  "refillDrawPile sh =
     (\<lambda>s. if drawPileCards s \<noteq> [] then (Inr (), s)
           else if length (discardPileCards s) \<le> 1 then (Inl CannotReplenish, s)
           else (Inr (), s\<lparr> drawPileCards := sh (butlast (discardPileCards s)),
                            discardPileCards := [last (discardPileCards s)] \<rparr>))"

definition takeFromDrawPile :: "('c card list \<Rightarrow> 'c card list) \<Rightarrow> ('c card, 'c) action" where
  "takeFromDrawPile sh =
     andThen (\<lambda>s. if drawPileCards s = [] then refillDrawPile sh s else (Inr (), s)) (\<lambda>_.
     (\<lambda>s. case drawPileCards s of
             [] \<Rightarrow> (Inl NoCardsAvailable, s)
           | c # rest \<Rightarrow> (Inr c, s\<lparr> drawPileCards := rest \<rparr>)))"

fun drawCardsForPlayer :: "('c card list \<Rightarrow> 'c card list) \<Rightarrow> nat \<Rightarrow> nat \<Rightarrow> (unit, 'c) action" where
  "drawCardsForPlayer sh player 0 = ret ()"
| "drawCardsForPlayer sh player (Suc k) =
     andThen (handOf player) (\<lambda>_.
     andThen (takeFromDrawPile sh) (\<lambda>c.
     andThen (modify (\<lambda>s. s\<lparr> hands := (hands s)[player := hands s ! player @ [c]] \<rparr>)) (\<lambda>_.
     drawCardsForPlayer sh player k)))"

definition applyPenalty :: "('c card list \<Rightarrow> 'c card list) \<Rightarrow> nat \<Rightarrow> nat \<Rightarrow> (unit, 'c) action" where
  "applyPenalty sh player cards =
     andThen (drawCardsForPlayer sh player cards) (\<lambda>_. updateUnoStateFor player)"

definition advance :: "int \<Rightarrow> (unit, 'c) action" where
  "advance steps =
     modify (\<lambda>s. case currentPlayerIndex s of
                   None \<Rightarrow> s
                 | Some c \<Rightarrow>
                     s\<lparr> currentPlayerIndex :=
                          Some (nat (mod_js (int c + steps * direction s) (int (playerCount s)))) \<rparr>)"

definition nextIndexFromCurrent :: "int \<Rightarrow> (nat, 'c) action" where
  "nextIndexFromCurrent offset =
     andThen ensureCurrentPlayer (\<lambda>current.
     inspect (\<lambda>s. nat (mod_js (int current + offset * direction s) (int (playerCount s)))))"

definition computeScore :: "nat \<Rightarrow> 'c round \<Rightarrow> int" where
  "computeScore winner s =
     sum_list (map (\<lambda>i. if i = winner then 0 else sum_list (map cardPoints (hands s ! i)))
                   [0..<length (hands s)])"

definition finishRound :: "nat \<Rightarrow> (unit, 'c) action" where
  "finishRound winner =
     modify (\<lambda>s. if ended s then s
                 else s\<lparr> ended := True, winnerIndex := Some winner, currentPlayerIndex := None,
                         cachedScore := Some (computeScore winner s) \<rparr>)"

section \<open>Public operations\<close>

definition canPlay :: "'c deck_lib \<Rightarrow> int \<Rightarrow> (bool, 'c) action" where
  "canPlay L cardIndex =
     (\<lambda>s. if ended s then (Inr False, s)
           else case currentPlayerIndex s of
                  None \<Rightarrow> (Inr False, s)
                | Some current \<Rightarrow>
                    andThen (handOf current) (\<lambda>hand.
                      if cardIndex < 0 \<or> cardIndex \<ge> int (length hand) then ret False
                      else inspect (\<lambda>s. canPlayCard L (hand ! nat cardIndex) (topCard s)
                                           (enforcedColor s))) s)"

text \<open>The colour branch of \<^verbatim>\<open>play\<close> (lines 242 to 248): it runs after the card has
  left the hand.\<close>

definition setEnforcedColor :: "'c deck_lib \<Rightarrow> 'c card \<Rightarrow> 'c option \<Rightarrow> (unit, 'c) action" where
  "setEnforcedColor L cd color =
     (if isWild cd then
        (case color of
           None \<Rightarrow> throw ColorMustBeSpecified
         | Some col \<Rightarrow>
             (case ensureColorValue L col of
                Inl e \<Rightarrow> throw e
              | Inr v \<Rightarrow> modify (\<lambda>s. s\<lparr> enforcedColor := Some v \<rparr>)))
      else
        (case color of
           Some col \<Rightarrow> throw ColorOnlyForWild
         | None \<Rightarrow> modify (\<lambda>s. s\<lparr> enforcedColor := None \<rparr>)))"

text \<open>The \<^verbatim>\<open>switch\<close> of \<^verbatim>\<open>play\<close> (lines 250 to 284); it returns
  \<^verbatim>\<open>advanceSteps\<close>.\<close>

definition cardEffect :: "('c card list \<Rightarrow> 'c card list) \<Rightarrow> 'c card \<Rightarrow> (int, 'c) action" where
  "cardEffect sh cd =
     (case cd of
        SKIP c \<Rightarrow> ret 2
      | REVERSE c \<Rightarrow>
          andThen (modify (\<lambda>s. s\<lparr> direction := direction s * (- 1) \<rparr>)) (\<lambda>_.
          inspect (\<lambda>s. if playerCount s = 2 then 2 else 1))
      | DRAW c \<Rightarrow>
          andThen (nextIndexFromCurrent 1) (\<lambda>victim.
          andThen (applyPenalty sh victim 2) (\<lambda>_.
          andThen (markActionBy victim) (\<lambda>_. ret 2)))
      | WILD \<Rightarrow> ret 1
      | WILD_DRAW \<Rightarrow>
          andThen (nextIndexFromCurrent 1) (\<lambda>victim.
          andThen (applyPenalty sh victim 4) (\<lambda>_.
          andThen (markActionBy victim) (\<lambda>_. ret 2)))
      | NUMBERED c n \<Rightarrow> ret 1)"

definition play ::
  "'c deck_lib \<Rightarrow> ('c card list \<Rightarrow> 'c card list) \<Rightarrow> int \<Rightarrow> 'c option \<Rightarrow> ('c card, 'c) action" where
  "play L sh cardIndex color =
     andThen ensureActiveRound (\<lambda>_.
     andThen ensureCurrentPlayer (\<lambda>current.
     andThen (ensureCardIndex current cardIndex) (\<lambda>_.
     andThen (markActionBy current) (\<lambda>_.
     andThen (handOf current) (\<lambda>hand.
     let cd = hand ! nat cardIndex in
     andThen (canPlay L cardIndex) (\<lambda>ok.
     if \<not> ok then throw CardCannotBePlayed
     else
     andThen (modify (\<lambda>s. s\<lparr> hands := (hands s)[current :=
                                  take (nat cardIndex) hand @ drop (Suc (nat cardIndex)) hand],
                              discardPileCards := discardPileCards s @ [cd] \<rparr>)) (\<lambda>_.
     andThen (setEnforcedColor L cd color) (\<lambda>_.
     andThen (cardEffect sh cd) (\<lambda>advanceSteps.
     andThen (updateUnoStateFor current) (\<lambda>_.
     andThen (handOf current) (\<lambda>hand'.
     if hand' = [] then
       andThen (modify (\<lambda>s. s\<lparr> pendingUno := None \<rparr>)) (\<lambda>_.
       andThen (finishRound current) (\<lambda>_. ret cd))
     else
       andThen (\<lambda>s. if \<not> ended s then advance advanceSteps s else (Inr (), s)) (\<lambda>_.
       ret cd))))))))))))"

definition draw :: "'c deck_lib \<Rightarrow> ('c card list \<Rightarrow> 'c card list) \<Rightarrow> ('c card, 'c) action" where
  "draw L sh =
     andThen ensureActiveRound (\<lambda>_.
     andThen ensureCurrentPlayer (\<lambda>current.
     andThen (markActionBy current) (\<lambda>_.
     andThen (takeFromDrawPile sh) (\<lambda>cd.
     andThen (handOf current) (\<lambda>hand.
     andThen (modify (\<lambda>s. s\<lparr> hands := (hands s)[current := hand @ [cd]] \<rparr>)) (\<lambda>_.
     andThen (updateUnoStateFor current) (\<lambda>_.
     andThen (\<lambda>s. if \<not> canPlayCard L cd (topCard s) (enforcedColor s) then advance 1 s
                  else (Inr (), s)) (\<lambda>_.
     ret cd))))))))"

definition catchUnoFailure ::
  "('c card list \<Rightarrow> 'c card list) \<Rightarrow> jsnum \<Rightarrow> jsnum \<Rightarrow> (bool, 'c) action" where
  "catchUnoFailure sh accuser accused =
     andThen (ensurePlayerIndex accuser) (\<lambda>_.
     andThen (ensurePlayerIndex accused) (\<lambda>a.
     (\<lambda>s. case pendingUno s of
             None \<Rightarrow> (Inr False, s)
           | Some (p, w) \<Rightarrow>
               if p \<noteq> a then (Inr False, s)
               else if \<not> w then (Inr False, s)
               else if unoDeclared s a then (Inr False, s)
               else
                 andThen (handOf a) (\<lambda>hand.
                   if length hand \<noteq> 1 then ret False
                   else
                     andThen (modify (\<lambda>s. s\<lparr> pendingUno := None \<rparr>)) (\<lambda>_.
                     andThen (applyPenalty sh a 4) (\<lambda>_.
                     andThen (modify (\<lambda>s. s\<lparr> unoDeclared := (unoDeclared s)(a := False) \<rparr>)) (\<lambda>_.
                     ret True)))) s)))"

definition sayUno :: "jsnum \<Rightarrow> (unit, 'c) action" where
  "sayUno playerIndex =
     andThen (ensurePlayerIndex playerIndex) (\<lambda>p.
     andThen ensureActiveRound (\<lambda>_.
     andThen (handOf p) (\<lambda>hand.
     if length hand > 2 then throw UnoTooManyCards
     else modify (\<lambda>s. clearPendingOf p (s\<lparr> unoDeclared := (unoDeclared s)(p := True) \<rparr>)))))"

section \<open>The snapshot codec\<close>

record 'c memento =
  m_players :: "string list"
  m_hands :: "'c card list list"
  m_drawPile :: "'c card list"
  m_discardPile :: "'c card list"
  m_currentColor :: 'c
  m_currentDirection :: string
  m_dealer :: jsnum
  m_playerInTurn :: "jsnum option"

definition toMemento :: "'c round \<Rightarrow> error + 'c memento" where
  "toMemento s =
     (case currentColor s of
        Inl e \<Rightarrow> Inl e
      | Inr c \<Rightarrow>
          Inr \<lparr> m_players = players s, m_hands = hands s, m_drawPile = drawPileCards s,
                m_discardPile = discardPileCards s, m_currentColor = c,
                m_currentDirection =
                  (if direction s = 1 then ''clockwise'' else ''counterclockwise''),
                m_dealer = JInt (int (dealer s)),
                m_playerInTurn =
                  (if ended s then None else map_option (\<lambda>i. JInt (int i)) (currentPlayerIndex s)) \<rparr>)"

text \<open>\<^verbatim>\<open>memento.hands.map(cloneCardsWithValidation)\<close>: the first malformed hand throws.\<close>

definition cloneHands :: "'c deck_lib \<Rightarrow> 'c card list list \<Rightarrow> error + 'c card list list" where
  "cloneHands L hs = (if list_all (list_all (cardOk L)) hs then Inr hs else Inl MalformedCard)"

definition orElse :: "error + 'a \<Rightarrow> ('a \<Rightarrow> error + 'b) \<Rightarrow> error + 'b" where
  "orElse r f = (case r of Inl e \<Rightarrow> Inl e | Inr a \<Rightarrow> f a)"

definition createRoundFromMemento :: "'c deck_lib \<Rightarrow> 'c memento \<Rightarrow> error + 'c round" where
  "createRoundFromMemento L m =
     orElse (case validatePlayers (m_players m) of Some e \<Rightarrow> Inl e | None \<Rightarrow> Inr ()) (\<lambda>_.
     orElse (ensureIndex (m_dealer m) (length (m_players m)) ''dealer'') (\<lambda>d.
     orElse (toDirection (m_currentDirection m)) (\<lambda>dir.
     orElse (ensureColorValue L (m_currentColor m)) (\<lambda>normalizedColor.
     if length (m_hands m) \<noteq> length (m_players m) then Inl HandsCountMismatch else
     orElse (cloneHands L (m_hands m)) (\<lambda>hs.
     orElse (cloneCardsWithValidation L (m_drawPile m)) (\<lambda>dp.
     orElse (cloneCardsWithValidation L (m_discardPile m)) (\<lambda>disc.
     if disc = [] then Inl DiscardPileEmpty else
     if length (winners hs) > 1 then Inl MultipleWinners else
     orElse (if length (winners hs) = 1 then Inr None
             else (case m_playerInTurn m of
                     None \<Rightarrow> Inl PlayerInTurnRequired
                   | Some p \<Rightarrow>
                       orElse (ensureIndex p (length (m_players m)) ''playerInTurn'')
                         (\<lambda>i. Inr (Some i)))) (\<lambda>cur.
     orElse (if isWild (last disc) then Inr (Some normalizedColor)
             else if colorOf (last disc) \<noteq> Some normalizedColor then Inl CurrentColorMismatch
             else Inr None) (\<lambda>ec.
     newRoundImpl (m_players m) d hs dp disc dir cur ec)))))))))"

section \<open>The initial deal\<close>

text \<open>\<^verbatim>\<open>buildInitialState\<close> builds and shuffles a fresh deck in every pass of its loop and
  deals it out into \<^verbatim>\<open>cards\<close>. \<^verbatim>\<open>deck.createInitialDeck\<close> is not under src/ and the
  shuffler may be random, so the model takes the successive contents of \<^verbatim>\<open>cards\<close> as
  a list, one per pass; when the list is used up the loop has not returned (\<open>None\<close>).
  \<^verbatim>\<open>cardsPerPlayer\<close> is an integer, as the configuration's contract says.\<close>

record roundConfig =
  c_players :: "string list"
  c_dealer :: jsnum
  c_cardsPerPlayer :: "int option"

record 'c initialState =
  init_hands :: "'c card list list"
  init_drawPile :: "'c card list"
  init_discardPile :: "'c card list"
  init_currentPlayer :: nat
  init_direction :: int
  init_enforcedColor :: "'c option"

text \<open>The inner loop over the players, and the outer loop over the rounds of dealing.\<close>

fun dealRow ::
  "nat list \<Rightarrow> 'c card list list \<Rightarrow> 'c card list \<Rightarrow> error + ('c card list list \<times> 'c card list)" where
  "dealRow [] hs cs = Inr (hs, cs)"
| "dealRow (p # ps) hs cs =
     (case cs of
        [] \<Rightarrow> Inl DeckExhaustedDealing
      | c # rest \<Rightarrow> dealRow ps (hs[p := hs ! p @ [c]]) rest)"

fun dealRows ::
  "nat \<Rightarrow> nat \<Rightarrow> 'c card list list \<Rightarrow> 'c card list \<Rightarrow> error + ('c card list list \<times> 'c card list)" where
  "dealRows 0 n hs cs = Inr (hs, cs)"
| "dealRows (Suc i) n hs cs =
     (case dealRow [0..<n] hs cs of
        Inl e \<Rightarrow> Inl e
      | Inr (hs', cs') \<Rightarrow> dealRows i n hs' cs')"

fun drawIntoHand ::
  "'c card list \<Rightarrow> 'c card list \<Rightarrow> nat \<Rightarrow> error + ('c card list \<times> 'c card list)" where
  "drawIntoHand hand source 0 = Inr (hand, source)"
| "drawIntoHand hand source (Suc k) =
     (case source of
        [] \<Rightarrow> Inl DeckExhaustedDrawEffect
      | c # rest \<Rightarrow> drawIntoHand (hand @ [c]) rest k)"

text \<open>The part of a pass after the first discard has been found not to be wild (lines 629
  to 664).\<close>

definition openingEffect ::
  "nat \<Rightarrow> nat \<Rightarrow> 'c card list list \<Rightarrow> 'c card list \<Rightarrow> 'c card \<Rightarrow> error + 'c initialState" where
  "openingEffect n d hs cs firstDiscard =
     (let start = \<lparr> init_hands = hs, init_drawPile = cs, init_discardPile = [firstDiscard],
                     init_currentPlayer = nat (mod_js (int d + 1) (int n)),
                     init_direction = 1, init_enforcedColor = None \<rparr>
      in case firstDiscard of
           SKIP c \<Rightarrow>
             Inr (start\<lparr> init_currentPlayer := nat (mod_js (int d + 2) (int n)) \<rparr>)
         | REVERSE c \<Rightarrow>
             if n = 2
             then Inr (start\<lparr> init_direction := - 1, init_currentPlayer := d \<rparr>)
             else Inr (start\<lparr> init_direction := - 1,
                              init_currentPlayer := nat (mod_js (int d - 1) (int n)) \<rparr>)
         | DRAW c \<Rightarrow>
             (let victim = init_currentPlayer start
              in case drawIntoHand (hs ! victim) cs 2 of
                   Inl e \<Rightarrow> Inl e
                 | Inr (hand, rest) \<Rightarrow>
                     Inr (start\<lparr> init_hands := hs[victim := hand], init_drawPile := rest,
                                init_currentPlayer :=
                                  nat (mod_js (int d + 2) (int n)) \<rparr>))
         | NUMBERED c k \<Rightarrow> Inr start
         | WILD \<Rightarrow> Inr start
         | WILD_DRAW \<Rightarrow> Inr start)"

fun buildInitialState ::
  "string list \<Rightarrow> nat \<Rightarrow> nat \<Rightarrow> 'c card list list \<Rightarrow> (error + 'c initialState) option" where
  "buildInitialState ps d cardsPerPlayer [] = None"
| "buildInitialState ps d cardsPerPlayer (cards # later) =
     (case dealRows cardsPerPlayer (length ps) (map (\<lambda>_. []) ps) cards of
        Inl e \<Rightarrow> Some (Inl e)
      | Inr (hs, cs) \<Rightarrow>
          (case cs of
             [] \<Rightarrow> Some (Inl DeckExhaustedDiscard)
           | firstDiscard # rest \<Rightarrow>
               if isWild firstDiscard then buildInitialState ps d cardsPerPlayer later
               else Some (openingEffect (length ps) d hs rest firstDiscard)))"

definition createRound :: "roundConfig \<Rightarrow> 'c card list list \<Rightarrow> (error + 'c round) option" where
  "createRound config decks =
     (case validatePlayers (c_players config) of
        Some e \<Rightarrow> Some (Inl e)
      | None \<Rightarrow>
          (let cardsPerPlayer = (case c_cardsPerPlayer config of None \<Rightarrow> 7 | Some k \<Rightarrow> k)
           in if cardsPerPlayer \<le> 0 then Some (Inl CardsPerPlayerNotPositive)
              else case ensureIndex (c_dealer config) (length (c_players config)) ''dealer'' of
                     Inl e \<Rightarrow> Some (Inl e)
                   | Inr d \<Rightarrow>
                       (case buildInitialState (c_players config) d (nat cardsPerPlayer)
                               decks of
                          None \<Rightarrow> None
                        | Some (Inl e) \<Rightarrow> Some (Inl e)
                        | Some (Inr setup) \<Rightarrow>
                            Some (newRoundImpl (c_players config) d (init_hands setup)
                                    (init_drawPile setup) (init_discardPile setup)
                                    (init_direction setup) (Some (init_currentPlayer setup))
                                    (init_enforcedColor setup)))))"

section \<open>Rounds reachable through the public operations\<close>

text \<open>The contract of a shuffler: the array holds the same cards afterwards.\<close>

definition isShuffle :: "('c card list \<Rightarrow> 'c card list) \<Rightarrow> bool" where
  "isShuffle sh \<longleftrightarrow> (\<forall>xs. mset (sh xs) = mset xs)"

datatype 'c operation = Play int "'c option" | Draw | SayUno jsnum | CatchUnoFailure jsnum jsnum

definition outcome :: "(error + 'a) \<times> 'c round \<Rightarrow> error option \<times> 'c round" where
  "outcome r = (case r of (Inl e, t) \<Rightarrow> (Some e, t) | (Inr a, t) \<Rightarrow> (None, t))"

definition perform ::
  "'c deck_lib \<Rightarrow> ('c card list \<Rightarrow> 'c card list) \<Rightarrow> 'c operation \<Rightarrow> 'c round \<Rightarrow>
   error option \<times> 'c round" where
  "perform L sh op s =
     (case op of
        Play i col \<Rightarrow> outcome (play L sh i col s)
      | Draw \<Rightarrow> outcome (draw L sh s)
      | SayUno p \<Rightarrow> outcome (sayUno p s)
      | CatchUnoFailure accuser accused \<Rightarrow> outcome (catchUnoFailure sh accuser accused s))"

text \<open>A round is reachable when \<^verbatim>\<open>createRound\<close> built it from decks of cards that the
  library's record check accepts, when \<^verbatim>\<open>createRoundFromMemento\<close> built it, or when an
  operation that returned (did not throw) led to it from a reachable round. The shuffler may
  differ from one call to the next, as a random one does.\<close>

inductive reachable :: "'c deck_lib \<Rightarrow> 'c round \<Rightarrow> bool" for L :: "'c deck_lib" where
  dealt: "createRound config decks = Some (Inr s) \<Longrightarrow> list_all (list_all (cardOk L)) decks \<Longrightarrow>
          reachable L s"
| created: "createRoundFromMemento L m = Inr s \<Longrightarrow> reachable L s"
| performed: "reachable L s \<Longrightarrow> isShuffle sh \<Longrightarrow> perform L sh op s = (None, s') \<Longrightarrow>
              reachable L s'"

text \<open>What holds of every reachable round.\<close>

definition roundInv :: "'c deck_lib \<Rightarrow> 'c round \<Rightarrow> bool" where
  "roundInv L s \<longleftrightarrow>
     2 \<le> length (players s) \<and> length (players s) \<le> 10 \<and> dealer s < length (players s) \<and>
     length (hands s) = length (players s) \<and>
     (direction s = 1 \<or> direction s = - 1) \<and>
     discardPileCards s \<noteq> [] \<and>
     (enforcedColor s \<noteq> None \<longleftrightarrow> isWild (last (discardPileCards s))) \<and>
     (\<forall>c. enforcedColor s = Some c \<longrightarrow> c \<in> set (colors L)) \<and>
     list_all (list_all (cardOk L)) (hands s) \<and>
     list_all (cardOk L) (drawPileCards s) \<and>
     list_all (cardOk L) (discardPileCards s) \<and>
     (\<forall>p w. pendingUno s = Some (p, w) \<longrightarrow> p < length (hands s) \<and> length (hands s ! p) = 1) \<and>
     (if ended s
      then currentPlayerIndex s = None \<and> pendingUno s = None \<and>
           (\<exists>w. winnerIndex s = Some w \<and> winners (hands s) = [w])
      else winnerIndex s = None \<and> winners (hands s) = [] \<and>
           (\<exists>c. currentPlayerIndex s = Some c \<and> c < length (players s)))"

text \<open>The step counts of the variant effect table, as the specification words them.\<close>

definition specSteps :: "'c card \<Rightarrow> nat \<Rightarrow> int" where
  "specSteps cd n =
     (case cd of
        NUMBERED c k \<Rightarrow> 1
      | WILD \<Rightarrow> 1
      | SKIP c \<Rightarrow> 2
      | DRAW c \<Rightarrow> 2
      | WILD_DRAW \<Rightarrow> 2
      | REVERSE c \<Rightarrow> if n = 2 then 2 else 1)"

definition specDirection :: "'c card \<Rightarrow> int \<Rightarrow> int" where
  "specDirection cd d = (case cd of REVERSE c \<Rightarrow> - d | _ \<Rightarrow> d)"

text \<open>The fields that drawing cards and the UNO bookkeeping never touch.\<close>

definition sameControl :: "'c round \<Rightarrow> 'c round \<Rightarrow> bool" where
  "sameControl s t \<longleftrightarrow>
     players t = players s \<and> dealer t = dealer s \<and> direction t = direction s \<and>
     currentPlayerIndex t = currentPlayerIndex s \<and> enforcedColor t = enforcedColor s \<and>
     ended t = ended s \<and> winnerIndex t = winnerIndex s \<and> cachedScore t = cachedScore s"

text \<open>The penalty column of the variant effect table.\<close>

fun specPenalty :: "'c card \<Rightarrow> nat" where
  "specPenalty (DRAW c) = 2"
| "specPenalty WILD_DRAW = 4"
| "specPenalty _ = 0"

text \<open>What the library's record check has to guarantee for a snapshot to be accepted again:
  a card it accepts carries a colour of the colour set.\<close>

definition checksColors :: "'c deck_lib \<Rightarrow> bool" where
  "checksColors L \<longleftrightarrow> (\<forall>cd c. cardOk L cd \<longrightarrow> colorOf cd = Some c \<longrightarrow> c \<in> set (colors L))"

text \<open>The four conditions of a successful accusation, as the specification words them: an
  accusation window is open, it targets the accused, the accused has not declared, and the
  accused holds exactly one card.\<close>

definition specCatchable :: "'c round \<Rightarrow> nat \<Rightarrow> bool" where
  "specCatchable s a \<longleftrightarrow>
     pendingUno s = Some (a, True) \<and> \<not> unoDeclared s a \<and> length (hands s ! a) = 1"

text \<open>The cards that can still be drawn: the draw pile, and the discard pile without its
  top.\<close>

definition drawable :: "'c round \<Rightarrow> nat" where
  "drawable s = length (drawPileCards s) + (length (discardPileCards s) - 1)"

section \<open>Pile views over the engine's arrays\<close>

text \<open>\<^verbatim>\<open>drawPile()\<close> and \<^verbatim>\<open>discardPile()\<close> pass the round's own array to the
  view's constructor, which keeps the reference. Arrays therefore live in a store, and a round
  object holds the addresses of its two piles next to its other fields (the pile fields of
  \<open>others\<close> are not read: \<open>loadRound\<close> fills them from the store).\<close>

type_synonym addr = nat

type_synonym 'c store = "addr \<Rightarrow> 'c card list"

record 'c roundObj =
  drawPileCardsAt :: addr
  discardPileCardsAt :: addr
  others :: "'c round"

definition loadRound :: "'c store \<Rightarrow> 'c roundObj \<Rightarrow> 'c round" where
  "loadRound st r =
     (others r)\<lparr> drawPileCards := st (drawPileCardsAt r),
                 discardPileCards := st (discardPileCardsAt r) \<rparr>"

record pileView =
  pile :: addr

definition drawPile :: "'c roundObj \<Rightarrow> pileView" where
  "drawPile r = \<lparr> pile = drawPileCardsAt r \<rparr>"

definition discardPile :: "'c roundObj \<Rightarrow> pileView" where
  "discardPile r = \<lparr> pile = discardPileCardsAt r \<rparr>"

text \<open>\<^verbatim>\<open>DrawPileView\<close> and \<^verbatim>\<open>DiscardPileView\<close> have the same \<^verbatim>\<open>size\<close>,
  \<^verbatim>\<open>deal\<close> and \<^verbatim>\<open>shuffle\<close>.\<close>

definition view_size :: "pileView \<Rightarrow> 'c store \<Rightarrow> nat" where
  "view_size v st = length (st (pile v))"

definition view_deal :: "pileView \<Rightarrow> 'c store \<Rightarrow> 'c card option \<times> 'c store" where
  "view_deal v st =
     (case st (pile v) of
        [] \<Rightarrow> (None, st)
      | c # rest \<Rightarrow> (Some c, st(pile v := rest)))"

definition view_shuffle :: "pileView \<Rightarrow> ('c card list \<Rightarrow> 'c card list) \<Rightarrow> 'c store \<Rightarrow> 'c store" where
  "view_shuffle v shuffler st = st(pile v := shuffler (st (pile v)))"

definition view_peek :: "pileView \<Rightarrow> 'c store \<Rightarrow> 'c card option" where
  "view_peek v st = (case st (pile v) of [] \<Rightarrow> None | c # rest \<Rightarrow> Some c)"

definition view_top :: "pileView \<Rightarrow> 'c store \<Rightarrow> 'c card option" where
  "view_top v st = (if st (pile v) = [] then None else Some (last (st (pile v))))"

section \<open>Example rounds\<close>

definition exColors :: "string list" where
  "exColors = [''RED'', ''YELLOW'', ''GREEN'', ''BLUE'']"

definition exLib :: "string deck_lib" where
  "exLib = specLib exColors"

text \<open>Two players; the player in turn holds a wild card and a red five.\<close>

definition exMemento :: "string memento" where
  "exMemento =
     \<lparr> m_players = [''ann'', ''bob''],
       m_hands = [[WILD, NUMBERED ''RED'' 5], [NUMBERED ''BLUE'' 7, SKIP ''GREEN'']],
       m_drawPile = [SKIP ''BLUE'', NUMBERED ''GREEN'' 1],
       m_discardPile = [NUMBERED ''RED'' 3],
       m_currentColor = ''RED'',
       m_currentDirection = ''clockwise'',
       m_dealer = JInt 1,
       m_playerInTurn = Some (JInt 0) \<rparr>"

definition exRound :: "string round" where
  "exRound =
     \<lparr> players = [''ann'', ''bob''], dealer = 1, unoDeclared = (\<lambda>_. False),
       hands = [[WILD, NUMBERED ''RED'' 5], [NUMBERED ''BLUE'' 7, SKIP ''GREEN'']],
       drawPileCards = [SKIP ''BLUE'', NUMBERED ''GREEN'' 1],
       discardPileCards = [NUMBERED ''RED'' 3], direction = 1,
       currentPlayerIndex = Some 0, enforcedColor = None, pendingUno = None,
       ended = False, winnerIndex = None, cachedScore = None \<rparr>"

text \<open>\<open>exRound\<close> after the player in turn has played the red five.\<close>

definition exRoundPlayed :: "string round" where
  "exRoundPlayed =
     exRound\<lparr> hands := [[WILD], [NUMBERED ''BLUE'' 7, SKIP ''GREEN'']],
               discardPileCards := [NUMBERED ''RED'' 3, NUMBERED ''RED'' 5],
               currentPlayerIndex := Some 1, pendingUno := Some (0, True) \<rparr>"

text \<open>\<open>exRound\<close> as \<^verbatim>\<open>play(0)\<close> without a colour leaves it when it throws: the wild card
  has moved from the hand to the discard pile.\<close>

definition exRoundThrown :: "string round" where
  "exRoundThrown =
     exRound\<lparr> hands := [[NUMBERED ''RED'' 5], [NUMBERED ''BLUE'' 7, SKIP ''GREEN'']],
               discardPileCards := [NUMBERED ''RED'' 3, WILD] \<rparr>"

text \<open>A snapshot of an ended round that still names a player in turn.\<close>

definition endedMemento :: "string memento" where
  "endedMemento =
     \<lparr> m_players = [''ann'', ''bob''],
       m_hands = [[], [NUMBERED ''RED'' 1]],
       m_drawPile = [SKIP ''BLUE''],
       m_discardPile = [NUMBERED ''RED'' 3],
       m_currentColor = ''RED'',
       m_currentDirection = ''clockwise'',
       m_dealer = JInt 0,
       m_playerInTurn = Some (JInt 1) \<rparr>"

definition endedRound :: "string round" where
  "endedRound =
     \<lparr> players = [''ann'', ''bob''], dealer = 0, unoDeclared = (\<lambda>_. False),
       hands = [[], [NUMBERED ''RED'' 1]],
       drawPileCards = [SKIP ''BLUE''],
       discardPileCards = [NUMBERED ''RED'' 3], direction = 1,
       currentPlayerIndex = None, enforcedColor = None, pendingUno = None,
       ended = True, winnerIndex = Some 0, cachedScore = None \<rparr>"

text \<open>A round whose draw pile is empty while the discard pile holds three cards, and one
  whose discard pile holds only its top.\<close>

definition refillMemento :: "string memento" where
  "refillMemento =
     \<lparr> m_players = [''ann'', ''bob''],
       m_hands = [[NUMBERED ''RED'' 5], [NUMBERED ''BLUE'' 7]],
       m_drawPile = [],
       m_discardPile = [NUMBERED ''GREEN'' 1, SKIP ''BLUE'', NUMBERED ''RED'' 3],
       m_currentColor = ''RED'',
       m_currentDirection = ''clockwise'',
       m_dealer = JInt 1,
       m_playerInTurn = Some (JInt 0) \<rparr>"

definition refillRound :: "string round" where
  "refillRound =
     \<lparr> players = [''ann'', ''bob''], dealer = 1, unoDeclared = (\<lambda>_. False),
       hands = [[NUMBERED ''RED'' 5], [NUMBERED ''BLUE'' 7]],
       drawPileCards = [],
       discardPileCards = [NUMBERED ''GREEN'' 1, SKIP ''BLUE'', NUMBERED ''RED'' 3],
       direction = 1, currentPlayerIndex = Some 0, enforcedColor = None, pendingUno = None,
       ended = False, winnerIndex = None, cachedScore = None \<rparr>"

definition exhaustedMemento :: "string memento" where
  "exhaustedMemento = refillMemento\<lparr> m_discardPile := [NUMBERED ''RED'' 3] \<rparr>"

definition exhaustedRound :: "string round" where
  "exhaustedRound = refillRound\<lparr> discardPileCards := [NUMBERED ''RED'' 3] \<rparr>"

text \<open>As \<open>exMemento\<close>, with five cards in the draw pile.\<close>

definition richMemento :: "string memento" where
  "richMemento =
     exMemento\<lparr> m_drawPile := [SKIP ''BLUE'', NUMBERED ''GREEN'' 1, NUMBERED ''YELLOW'' 2,
                               DRAW ''RED'', REVERSE ''BLUE''] \<rparr>"

definition richRound :: "string round" where
  "richRound =
     exRound\<lparr> drawPileCards := [SKIP ''BLUE'', NUMBERED ''GREEN'' 1, NUMBERED ''YELLOW'' 2,
                                DRAW ''RED'', REVERSE ''BLUE''] \<rparr>"

definition richRoundPlayed :: "string round" where
  "richRoundPlayed =
     exRoundPlayed\<lparr> drawPileCards := [SKIP ''BLUE'', NUMBERED ''GREEN'' 1, NUMBERED ''YELLOW'' 2,
                                      DRAW ''RED'', REVERSE ''BLUE''] \<rparr>"


text \<open>The round \<open>exRound\<close> as an object whose piles live in a store.\<close>

definition exStore :: "string store" where
  "exStore = (\<lambda>_. [])(0 := [SKIP ''BLUE'', NUMBERED ''GREEN'' 1], 1 := [NUMBERED ''RED'' 3])"

definition exObj :: "string roundObj" where
  "exObj = \<lparr> drawPileCardsAt = 0, discardPileCardsAt = 1, others = exRound \<rparr>"

text \<open>A deal for two players with two cards each; the first pass turns up a wild card and
  is abandoned, the second turns up a SKIP.\<close>

definition exConfig :: roundConfig where
  "exConfig = \<lparr> c_players = [''ann'', ''bob''], c_dealer = JInt 0, c_cardsPerPlayer = Some 2 \<rparr>"

definition exDecks :: "string card list list" where
  "exDecks =
     [[NUMBERED ''RED'' 1, NUMBERED ''BLUE'' 2, NUMBERED ''RED'' 3, NUMBERED ''BLUE'' 4, WILD],
      [NUMBERED ''RED'' 1, NUMBERED ''BLUE'' 2, NUMBERED ''RED'' 3, NUMBERED ''BLUE'' 4,
       SKIP ''GREEN'', NUMBERED ''YELLOW'' 9]]"

definition exDealt :: "string round" where
  "exDealt =
     \<lparr> players = [''ann'', ''bob''], dealer = 0, unoDeclared = (\<lambda>_. False),
       hands = [[NUMBERED ''RED'' 1, NUMBERED ''RED'' 3],
                [NUMBERED ''BLUE'' 2, NUMBERED ''BLUE'' 4]],
       drawPileCards = [NUMBERED ''YELLOW'' 9],
       discardPileCards = [SKIP ''GREEN''], direction = 1,
       currentPlayerIndex = Some 0, enforcedColor = None, pendingUno = None,
       ended = False, winnerIndex = None, cachedScore = None \<rparr>"

section \<open>Basic facts about actions and helpers\<close>

lemma andThen_apply: "andThen m f s = (case m s of (Inl e, s') \<Rightarrow> (Inl e, s') | (Inr a, s') \<Rightarrow> f a s')"
  by (simp add: andThen_def)

lemma andThen_Inr_iff:
  "andThen m f s = (Inr b, s') \<longleftrightarrow> (\<exists>a t. m s = (Inr a, t) \<and> f a t = (Inr b, s'))"
  by (auto simp: andThen_def split: prod.splits sum.splits)

lemma andThen_Inl_iff:
  "andThen m f s = (Inl e, s') \<longleftrightarrow>
     (m s = (Inl e, s') \<or> (\<exists>a t. m s = (Inr a, t) \<and> f a t = (Inl e, s')))"
  by (auto simp: andThen_def split: prod.splits sum.splits)

lemma ret_apply: "ret a s = (Inr a, s)" by (simp add: ret_def)
lemma throw_apply: "throw e s = (Inl e, s)" by (simp add: throw_def)
lemma modify_apply: "modify f s = (Inr (), f s)" by (simp add: modify_def)
lemma inspect_apply: "inspect f s = (Inr (f s), s)" by (simp add: inspect_def)

lemmas action_simps = ret_apply throw_apply modify_apply inspect_apply

lemma jsRem_nonneg: "0 \<le> a \<Longrightarrow> 0 < b \<Longrightarrow> jsRem a b = a mod b"
  by (cases "a = 0") (simp_all add: jsRem_def)

lemma jsRem_neg: "a < 0 \<Longrightarrow> 0 < b \<Longrightarrow> jsRem a b = - ((- a) mod b)"
  by (simp add: jsRem_def)

lemma mod_js_eq: "0 < m \<Longrightarrow> mod_js v m = v mod m"
proof (cases "0 \<le> v")
  case True
  assume "0 < m"
  with True show ?thesis by (simp add: mod_js_def jsRem_nonneg)
next
  case False
  assume m: "0 < m"
  from False have v: "v < 0" by simp
  have r: "jsRem v m = - ((- v) mod m)" using v m by (rule jsRem_neg)
  show ?thesis
  proof (cases "(- v) mod m = 0")
    case True
    then have "v mod m = 0" by (metis mod_minus_cong minus_zero add.inverse_inverse mod_0)
    with True r show ?thesis by (simp add: mod_js_def)
  next
    case False
    then have "v mod m = m - (- v) mod m"
      using m by (metis add.inverse_inverse zmod_zminus1_eq_if)
    moreover have "0 < (- v) mod m" using False m
      by (simp add: order_less_le)
    ultimately show ?thesis using r by (simp add: mod_js_def)
  qed
qed

lemma markActionBy_apply:
  "markActionBy p s =
     (Inr (), s\<lparr> pendingUno := (case pendingUno s of
                                   None \<Rightarrow> None
                                 | Some (q, w) \<Rightarrow> if q \<noteq> p then Some (q, False) else Some (q, w)) \<rparr>)"
  by (simp add: markActionBy_def modify_def split: option.splits prod.splits)

lemma clearPendingOf_eq:
  "clearPendingOf p s =
     s\<lparr> pendingUno := (case pendingUno s of
                         None \<Rightarrow> None
                       | Some (q, w) \<Rightarrow> if q = p then None else Some (q, w)) \<rparr>"
  by (simp add: clearPendingOf_def split: option.splits prod.splits)

lemma handOf_Inr_iff: "handOf p s = (Inr h, t) \<longleftrightarrow> p < length (hands s) \<and> h = hands s ! p \<and> t = s"
  by (auto simp: handOf_def)

lemma handOf_Inl_iff: "handOf p s = (Inl e, t) \<longleftrightarrow> \<not> p < length (hands s) \<and> e = TypeError \<and> t = s"
  by (auto simp: handOf_def)

lemma handOf_in_range: "p < length (hands s) \<Longrightarrow> handOf p s = (Inr (hands s ! p), s)"
  by (simp add: handOf_def)

lemma sameControl_refl: "sameControl s s"
  by (simp add: sameControl_def)

lemma sameControl_trans: "sameControl s t \<Longrightarrow> sameControl t u \<Longrightarrow> sameControl s u"
  by (simp add: sameControl_def)

lemma updateUnoStateFor_Inr:
  assumes "updateUnoStateFor p s = (Inr u, t)"
  shows "sameControl s t \<and> hands t = hands s \<and> drawPileCards t = drawPileCards s \<and>
         discardPileCards t = discardPileCards s \<and> p < length (hands s) \<and>
         (\<forall>q w. pendingUno t = Some (q, w) \<longrightarrow> q < length (hands s) \<and> length (hands s ! q) = 1)"
  using assms
  by (auto simp: updateUnoStateFor_def andThen_Inr_iff handOf_Inr_iff action_simps sameControl_def
      clearPendingOf_eq split: option.splits prod.splits if_splits)

lemma updateUnoStateFor_Inl:
  assumes "updateUnoStateFor p s = (Inl e, t)"
  shows "e = TypeError \<and> (\<not> p < length (hands s) \<or> (\<exists>q w. pendingUno s = Some (q, w) \<and> q \<noteq> p \<and> \<not> q < length (hands s)))"
  using assms
  by (auto simp: updateUnoStateFor_def andThen_Inl_iff andThen_Inr_iff handOf_Inr_iff handOf_Inl_iff action_simps
      clearPendingOf_eq split: option.splits prod.splits if_splits)

lemma takeFromDrawPile_Inr:
  assumes "takeFromDrawPile sh s = (Inr c, t)"
  shows "sameControl s t \<and> hands t = hands s \<and> pendingUno t = pendingUno s \<and>
         unoDeclared t = unoDeclared s \<and>
         (if drawPileCards s = []
          then 1 < length (discardPileCards s) \<and>
               sh (butlast (discardPileCards s)) = c # drawPileCards t \<and>
               discardPileCards t = [last (discardPileCards s)]
          else drawPileCards s = c # drawPileCards t \<and> discardPileCards t = discardPileCards s)"
  using assms
  by (auto simp: takeFromDrawPile_def refillDrawPile_def andThen_Inr_iff sameControl_def
      split: if_splits list.splits)

lemma takeFromDrawPile_Inl:
  assumes "takeFromDrawPile sh s = (Inl e, t)"
  shows "drawPileCards s = [] \<and>
         (if length (discardPileCards s) \<le> 1 then e = CannotReplenish \<and> t = s
          else e = NoCardsAvailable \<and> sh (butlast (discardPileCards s)) = [])"
  using assms
  by (auto simp: takeFromDrawPile_def refillDrawPile_def andThen_Inl_iff
      split: if_splits list.splits)

lemma mset_butlast_last: "xs \<noteq> [] \<Longrightarrow> mset (butlast xs) + {#last xs#} = mset xs"
  by (induction xs) auto

lemma takeFromDrawPile_mset:
  assumes "takeFromDrawPile sh s = (Inr c, t)" and "isShuffle sh"
  shows "add_mset c (mset (drawPileCards t) + mset (discardPileCards t)) =
         mset (drawPileCards s) + mset (discardPileCards s)"
proof (cases "drawPileCards s = []")
  case True
  with takeFromDrawPile_Inr [OF assms(1)]
  have len: "1 < length (discardPileCards s)"
    and shf: "sh (butlast (discardPileCards s)) = c # drawPileCards t"
    and top: "discardPileCards t = [last (discardPileCards s)]" by simp_all
  from len have ne: "discardPileCards s \<noteq> []" by auto
  have "mset (sh (butlast (discardPileCards s))) = mset (butlast (discardPileCards s))"
    using assms(2) by (simp add: isShuffle_def)
  then have "mset (c # drawPileCards t) = mset (butlast (discardPileCards s))"
    by (simp add: shf)
  then have "add_mset c (mset (drawPileCards t)) + {#last (discardPileCards s)#} =
             mset (discardPileCards s)"
    using mset_butlast_last [OF ne] by simp
  then show ?thesis using True top by (simp add: add_mset_commute)
next
  case False
  with takeFromDrawPile_Inr [OF assms(1)] show ?thesis by auto
qed

lemma takeFromDrawPile_top:
  assumes "takeFromDrawPile sh s = (Inr c, t)" and "discardPileCards s \<noteq> []"
  shows "discardPileCards t \<noteq> [] \<and> last (discardPileCards t) = last (discardPileCards s)"
  using takeFromDrawPile_Inr [OF assms(1)] assms(2) by (auto split: if_splits)

lemma drawCardsForPlayer_Inr:
  assumes "drawCardsForPlayer sh p k s = (Inr u, t)"
  shows "sameControl s t \<and> pendingUno t = pendingUno s \<and> unoDeclared t = unoDeclared s \<and>
         (0 < k \<longrightarrow> p < length (hands s)) \<and>
         (\<exists>cs. length cs = k \<and> hands t = (hands s)[p := hands s ! p @ cs] \<and>
               (isShuffle sh \<longrightarrow>
                  mset cs + mset (drawPileCards t) + mset (discardPileCards t) =
                  mset (drawPileCards s) + mset (discardPileCards s))) \<and>
         (discardPileCards s \<noteq> [] \<longrightarrow>
            discardPileCards t \<noteq> [] \<and> last (discardPileCards t) = last (discardPileCards s))"
  using assms
proof (induction k arbitrary: s)
  case 0
  then show ?case by (auto simp: ret_def sameControl_refl intro: exI [of _ "[]"])
next
  case (Suc k)
  from Suc.prems obtain c s1 where
    p: "p < length (hands s)" and
    tk: "takeFromDrawPile sh s = (Inr c, s1)" and
    rest: "drawCardsForPlayer sh p k (s1\<lparr> hands := (hands s1)[p := hands s1 ! p @ [c]] \<rparr>) = (Inr u, t)"
    by (auto simp: andThen_Inr_iff handOf_Inr_iff action_simps)
  let ?s2 = "s1\<lparr> hands := (hands s1)[p := hands s1 ! p @ [c]] \<rparr>"
  note T = takeFromDrawPile_Inr [OF tk]
  from T have h1: "hands s1 = hands s" and u1: "pendingUno s1 = pendingUno s"
    "unoDeclared s1 = unoDeclared s" and c1: "sameControl s s1" by simp_all
  note IH = Suc.IH [OF rest]
  from IH obtain cs where cs: "length cs = k"
    "hands t = (hands ?s2)[p := hands ?s2 ! p @ cs]"
    "isShuffle sh \<longrightarrow> mset cs + mset (drawPileCards t) + mset (discardPileCards t) =
                  mset (drawPileCards ?s2) + mset (discardPileCards ?s2)" by blast
  have ctl: "sameControl s t"
    using IH c1 by (simp add: sameControl_def)
  have uno: "pendingUno t = pendingUno s \<and> unoDeclared t = unoDeclared s"
    using IH u1 by simp
  have hands: "hands t = (hands s)[p := hands s ! p @ (c # cs)]"
    using cs(2) h1 p by simp
  have ms: "isShuffle sh \<longrightarrow> mset (c # cs) + mset (drawPileCards t) + mset (discardPileCards t) =
                  mset (drawPileCards s) + mset (discardPileCards s)"
    using cs(3) takeFromDrawPile_mset [OF tk] by auto
  have top: "discardPileCards s \<noteq> [] \<longrightarrow>
            discardPileCards t \<noteq> [] \<and> last (discardPileCards t) = last (discardPileCards s)"
    using IH takeFromDrawPile_top [OF tk] by simp
  from cs(1) have "length (c # cs) = Suc k" by simp
  with ctl uno p hands ms top show ?case by blast
qed

lemma applyPenalty_Inr:
  assumes "applyPenalty sh p k s = (Inr u, t)"
  shows "sameControl s t \<and> p < length (hands s) \<and>
         (\<exists>cs. length cs = k \<and> hands t = (hands s)[p := hands s ! p @ cs] \<and>
               (isShuffle sh \<longrightarrow>
                  mset cs + mset (drawPileCards t) + mset (discardPileCards t) =
                  mset (drawPileCards s) + mset (discardPileCards s))) \<and>
         (discardPileCards s \<noteq> [] \<longrightarrow>
            discardPileCards t \<noteq> [] \<and> last (discardPileCards t) = last (discardPileCards s)) \<and>
         (\<forall>q w. pendingUno t = Some (q, w) \<longrightarrow> q < length (hands t) \<and> length (hands t ! q) = 1)"
proof -
  from assms obtain s1 where
    d: "drawCardsForPlayer sh p k s = (Inr (), s1)" and
    up: "updateUnoStateFor p s1 = (Inr u, t)"
    by (auto simp: applyPenalty_def andThen_Inr_iff)
  note D = drawCardsForPlayer_Inr [OF d]
  note U = updateUnoStateFor_Inr [OF up]
  from D obtain cs where cs: "length cs = k" "hands s1 = (hands s)[p := hands s ! p @ cs]"
     "isShuffle sh \<longrightarrow> mset cs + mset (drawPileCards s1) + mset (discardPileCards s1) =
                  mset (drawPileCards s) + mset (discardPileCards s)" by blast
  have "sameControl s t" using D U sameControl_trans by blast
  moreover have "p < length (hands s)" using U cs(2) by simp
  moreover have "length cs = k \<and> hands t = (hands s)[p := hands s ! p @ cs] \<and>
               (isShuffle sh \<longrightarrow>
                  mset cs + mset (drawPileCards t) + mset (discardPileCards t) =
                  mset (drawPileCards s) + mset (discardPileCards s))"
    using cs U by simp
  moreover have "discardPileCards s \<noteq> [] \<longrightarrow>
            discardPileCards t \<noteq> [] \<and> last (discardPileCards t) = last (discardPileCards s)"
    using D U by simp
  moreover have "\<forall>q w. pendingUno t = Some (q, w) \<longrightarrow> q < length (hands t) \<and> length (hands t ! q) = 1"
    using U by simp
  ultimately show ?thesis by blast
qed

lemma andThen_InrE:
  assumes "andThen m f s = (Inr b, s')"
  obtains a t where "m s = (Inr a, t)" and "f a t = (Inr b, s')"
  using assms by (auto simp: andThen_Inr_iff)

lemma play_Inr_chain:
  assumes "play L sh i col s = (Inr cd, t)"
  shows "\<exists>cur s1 s2 s3 s4 s5 n.
           \<not> ended s \<and> currentPlayerIndex s = Some cur \<and> cur < length (hands s) \<and>
           0 \<le> i \<and> nat i < length (hands s ! cur) \<and> cd = hands s ! cur ! nat i \<and>
           markActionBy cur s = (Inr (), s1) \<and>
           canPlayCard L cd (topCard s1) (enforcedColor s1) \<and>
           s2 = s1\<lparr> hands := (hands s1)[cur := take (nat i) (hands s ! cur) @
                                               drop (Suc (nat i)) (hands s ! cur)],
                      discardPileCards := discardPileCards s1 @ [cd] \<rparr> \<and>
           setEnforcedColor L cd col s2 = (Inr (), s3) \<and>
           cardEffect sh cd s3 = (Inr n, s4) \<and>
           updateUnoStateFor cur s4 = (Inr (), s5) \<and>
           cur < length (hands s5) \<and>
           (hands s5 ! cur = [] \<and> finishRound cur (s5\<lparr> pendingUno := None \<rparr>) = (Inr (), t) \<or>
            hands s5 ! cur \<noteq> [] \<and> \<not> ended s5 \<and> advance n s5 = (Inr (), t) \<or>
            hands s5 ! cur \<noteq> [] \<and> ended s5 \<and> t = s5)"
  using assms unfolding play_def
  apply (elim andThen_InrE)
  apply (simp only: Let_def)
  apply (elim andThen_InrE)
  apply (split if_split_asm)
   apply (simp add: throw_def)
  apply (elim andThen_InrE)
  subgoal premises p for a ta aa taa ab tb ac tc ad td ae te af tf ag tg ah th ai ti aj tj
  proof -
    from p have a: "\<not> ended s" "ta = s"
      by (auto simp: ensureActiveRound_def split: if_splits)
    from p a have b: "currentPlayerIndex s = Some aa" "taa = s"
      by (auto simp: ensureCurrentPlayer_def split: option.splits)
    from p b have c: "aa < length (hands s)" "0 \<le> i" "nat i < length (hands s ! aa)" "tb = s"
      by (auto simp: ensureCardIndex_def andThen_Inr_iff handOf_Inr_iff action_simps split: if_splits)
    from p c have d: "markActionBy aa s = (Inr (), tc)" "hands tc = hands s" "ended tc = ended s"
      "currentPlayerIndex tc = currentPlayerIndex s"
      by (auto simp: markActionBy_apply)
    from p c d have e: "td = tc" "ad = hands s ! aa"
      by (auto simp: handOf_Inr_iff)
    from p a b c d e have f: "te = tc" "canPlayCard L (ad ! nat i) (topCard tc) (enforcedColor tc)"
      by (auto simp: canPlay_def andThen_Inr_iff handOf_Inr_iff action_simps split: if_splits)
    from p e f have h: "tf = tc\<lparr> hands := (hands tc)[aa := take (nat i) (hands s ! aa) @
                                               drop (Suc (nat i)) (hands s ! aa)],
                      discardPileCards := discardPileCards tc @ [ad ! nat i] \<rparr>"
      by (auto simp: modify_def)
    from p have k: "aa < length (hands ti)" "aj = hands ti ! aa" "tj = ti"
      by (auto simp: handOf_Inr_iff)
    from p k have g: "cd = ad ! nat i"
      by (auto simp: andThen_Inr_iff action_simps split: if_splits)
    from p k have fin:
      "hands ti ! aa = [] \<and> finishRound aa (ti\<lparr> pendingUno := None \<rparr>) = (Inr (), t) \<or>
       hands ti ! aa \<noteq> [] \<and> \<not> ended ti \<and> advance ah ti = (Inr (), t) \<or>
       hands ti ! aa \<noteq> [] \<and> ended ti \<and> t = ti"
      by (auto simp: andThen_Inr_iff action_simps split: if_splits)
    have u: "ag = ()" "ai = ()" by simp_all
    show ?thesis
      using a b c d(1) e f g h k(1) p(9-11) fin unfolding u by blast
  qed
  done

lemma setEnforcedColor_Inr:
  assumes "setEnforcedColor L cd col s = (Inr u, t)"
  shows "(isWild cd \<longrightarrow> (\<exists>c. col = Some c \<and> c \<in> set (colors L) \<and> t = s\<lparr> enforcedColor := Some c \<rparr>)) \<and>
         (\<not> isWild cd \<longrightarrow> col = None \<and> t = s\<lparr> enforcedColor := None \<rparr>)"
  using assms
  by (auto simp: setEnforcedColor_def ensureColorValue_def action_simps
      split: option.splits if_splits)

lemma nextIndexFromCurrent_Inr:
  "nextIndexFromCurrent k s = (Inr v, t) \<longleftrightarrow>
     t = s \<and> (\<exists>c. currentPlayerIndex s = Some c \<and>
                    v = nat (mod_js (int c + k * direction s) (int (playerCount s))))"
  by (auto simp: nextIndexFromCurrent_def ensureCurrentPlayer_def andThen_Inr_iff action_simps
      split: option.splits)

lemma penalty_then_mark:
  assumes "andThen (nextIndexFromCurrent 1) (\<lambda>victim.
           andThen (applyPenalty sh victim k) (\<lambda>_.
           andThen (markActionBy victim) (\<lambda>_. ret n))) s = (Inr m, t)"
  shows "m = n \<and> sameControl s t \<and>
         (\<exists>v cs. v < length (hands s) \<and> length cs = k \<and>
                 (\<exists>c. currentPlayerIndex s = Some c \<and>
                      v = nat (mod_js (int c + direction s) (int (playerCount s)))) \<and>
                 hands t = (hands s)[v := hands s ! v @ cs] \<and>
                 (isShuffle sh \<longrightarrow>
                    mset cs + mset (drawPileCards t) + mset (discardPileCards t) =
                    mset (drawPileCards s) + mset (discardPileCards s))) \<and>
         (discardPileCards s \<noteq> [] \<longrightarrow>
            discardPileCards t \<noteq> [] \<and> last (discardPileCards t) = last (discardPileCards s))"
proof -
  from assms obtain v s1 where
    v: "\<exists>c. currentPlayerIndex s = Some c \<and>
              v = nat (mod_js (int c + 1 * direction s) (int (playerCount s)))" and
    ap: "applyPenalty sh v k s = (Inr (), s1)" and
    mk: "markActionBy v s1 = (Inr (), t)" and m: "m = n"
    by (auto simp: andThen_Inr_iff nextIndexFromCurrent_Inr action_simps)
  note A = applyPenalty_Inr [OF ap]
  from mk have t: "sameControl s1 t" "hands t = hands s1" "drawPileCards t = drawPileCards s1"
    "discardPileCards t = discardPileCards s1"
    by (auto simp: markActionBy_apply sameControl_def)
  from A obtain cs where cs: "length cs = k" "hands s1 = (hands s)[v := hands s ! v @ cs]"
    "isShuffle sh \<longrightarrow> mset cs + mset (drawPileCards s1) + mset (discardPileCards s1) =
                  mset (drawPileCards s) + mset (discardPileCards s)" by blast
  have 1: "sameControl s t" using A t(1) sameControl_trans by blast
  have 2: "v < length (hands s)" using A by simp
  have 3: "hands t = (hands s)[v := hands s ! v @ cs]" using cs(2) t(2) by simp
  have 4: "isShuffle sh \<longrightarrow> mset cs + mset (drawPileCards t) + mset (discardPileCards t) =
                  mset (drawPileCards s) + mset (discardPileCards s)" using cs(3) t by simp
  have 5: "discardPileCards s \<noteq> [] \<longrightarrow>
            discardPileCards t \<noteq> [] \<and> last (discardPileCards t) = last (discardPileCards s)"
    using A t by simp
  from v have v': "\<exists>c. currentPlayerIndex s = Some c \<and>
              v = nat (mod_js (int c + direction s) (int (playerCount s)))" by simp
  show ?thesis using m 1 2 3 4 5 v' cs(1) by blast
qed

lemma cardEffect_control:
  assumes "cardEffect sh cd s = (Inr n, t)"
  shows "n = specSteps cd (playerCount s) \<and> direction t = specDirection cd (direction s) \<and>
         players t = players s \<and> dealer t = dealer s \<and>
         currentPlayerIndex t = currentPlayerIndex s \<and> enforcedColor t = enforcedColor s \<and>
         ended t = ended s \<and> winnerIndex t = winnerIndex s \<and> cachedScore t = cachedScore s"
proof (cases cd)
  case (DRAW c)
  with assms penalty_then_mark [of sh 2 2 s n t] show ?thesis
    by (simp add: cardEffect_def specSteps_def specDirection_def sameControl_def)
next
  case WILD_DRAW
  with assms penalty_then_mark [of sh 4 2 s n t] show ?thesis
    by (simp add: cardEffect_def specSteps_def specDirection_def sameControl_def)
qed (use assms in \<open>auto simp: cardEffect_def specSteps_def specDirection_def action_simps
       andThen_Inr_iff playerCount_def\<close>)

lemma cardEffect_piles:
  assumes "cardEffect sh cd s = (Inr n, t)"
  shows "(\<exists>v cs. length cs = specPenalty cd \<and> hands t = (hands s)[v := hands s ! v @ cs] \<and>
                 (cs \<noteq> [] \<longrightarrow> v < length (hands s) \<and>
                    (\<exists>c. currentPlayerIndex s = Some c \<and>
                      v = nat (mod_js (int c + direction s) (int (playerCount s))))) \<and>
                 (isShuffle sh \<longrightarrow>
                    mset cs + mset (drawPileCards t) + mset (discardPileCards t) =
                    mset (drawPileCards s) + mset (discardPileCards s))) \<and>
         (discardPileCards s \<noteq> [] \<longrightarrow>
            discardPileCards t \<noteq> [] \<and> last (discardPileCards t) = last (discardPileCards s))"
proof (cases cd)
  case (DRAW c)
  with assms penalty_then_mark [of sh 2 2 s n t] show ?thesis
    by (simp add: cardEffect_def) blast
next
  case WILD_DRAW
  with assms penalty_then_mark [of sh 4 2 s n t] show ?thesis
    by (simp add: cardEffect_def) blast
next
  case (NUMBERED c k)
  with assms have "t = s" by (simp add: cardEffect_def ret_def)
  with NUMBERED show ?thesis by (auto intro: exI [of _ "[]"])
next
  case (SKIP c)
  with assms have "t = s" by (simp add: cardEffect_def ret_def)
  with SKIP show ?thesis by (auto intro: exI [of _ "[]"])
next
  case WILD
  with assms have "t = s" by (simp add: cardEffect_def ret_def)
  with WILD show ?thesis by (auto intro: exI [of _ "[]"])
next
  case (REVERSE c)
  with assms have "t = s\<lparr> direction := direction s * (- 1) \<rparr>"
    by (auto simp: cardEffect_def action_simps andThen_Inr_iff)
  with REVERSE show ?thesis by (auto intro: exI [of _ "[]"])
qed

lemma finishRound_apply:
  "\<not> ended s \<Longrightarrow> finishRound w s =
     (Inr (), s\<lparr> ended := True, winnerIndex := Some w, currentPlayerIndex := None,
                  cachedScore := Some (computeScore w s) \<rparr>)"
  by (simp add: finishRound_def modify_def)

lemma advance_apply:
  "currentPlayerIndex s = Some c \<Longrightarrow> advance n s =
     (Inr (), s\<lparr> currentPlayerIndex :=
                    Some (nat (mod_js (int c + n * direction s) (int (playerCount s)))) \<rparr>)"
  by (simp add: advance_def modify_def)

lemma play_control:
  assumes "play L sh i col s = (Inr cd, t)"
  shows "\<exists>cur. \<not> ended s \<and> currentPlayerIndex s = Some cur \<and> cur < length (hands s) \<and>
           0 \<le> i \<and> nat i < length (hands s ! cur) \<and> cd = hands s ! cur ! nat i \<and>
           players t = players s \<and> dealer t = dealer s \<and>
           direction t = specDirection cd (direction s) \<and>
           (if ended t
            then currentPlayerIndex t = None \<and> winnerIndex t = Some cur \<and> pendingUno t = None \<and>
                 hands t ! cur = []
            else currentPlayerIndex t =
                   Some (nat (mod_js (int cur + specSteps cd (playerCount s) * direction t)
                                (int (playerCount s)))) \<and>
                 winnerIndex t = winnerIndex s \<and> hands t ! cur \<noteq> [])"
proof -
  from play_Inr_chain [OF assms] obtain cur s1 s2 s3 s4 s5 n where
    pre: "\<not> ended s" "currentPlayerIndex s = Some cur" "cur < length (hands s)"
         "0 \<le> i" "nat i < length (hands s ! cur)" "cd = hands s ! cur ! nat i" and
    s1: "markActionBy cur s = (Inr (), s1)" and
    s2: "s2 = s1\<lparr> hands := (hands s1)[cur := take (nat i) (hands s ! cur) @
                                               drop (Suc (nat i)) (hands s ! cur)],
                      discardPileCards := discardPileCards s1 @ [cd] \<rparr>" and
    s3: "setEnforcedColor L cd col s2 = (Inr (), s3)" and
    s4: "cardEffect sh cd s3 = (Inr n, s4)" and
    s5: "updateUnoStateFor cur s4 = (Inr (), s5)" and
    fin: "hands s5 ! cur = [] \<and> finishRound cur (s5\<lparr> pendingUno := None \<rparr>) = (Inr (), t) \<or>
          hands s5 ! cur \<noteq> [] \<and> \<not> ended s5 \<and> advance n s5 = (Inr (), t) \<or>
          hands s5 ! cur \<noteq> [] \<and> ended s5 \<and> t = s5"
    by blast
  from s1 have c1: "sameControl s s1" by (auto simp: markActionBy_apply sameControl_def)
  from s2 have c2: "players s2 = players s1" "dealer s2 = dealer s1" "direction s2 = direction s1"
    "currentPlayerIndex s2 = currentPlayerIndex s1" "ended s2 = ended s1"
    "winnerIndex s2 = winnerIndex s1" by simp_all
  from setEnforcedColor_Inr [OF s3]
  have c3: "players s3 = players s2" "dealer s3 = dealer s2" "direction s3 = direction s2"
    "currentPlayerIndex s3 = currentPlayerIndex s2" "ended s3 = ended s2"
    "winnerIndex s3 = winnerIndex s2" by (cases "isWild cd"; auto)+
  note c4 = cardEffect_control [OF s4]
  from updateUnoStateFor_Inr [OF s5] have c5: "sameControl s4 s5" by simp
  have pl: "players s5 = players s" "dealer s5 = dealer s" "ended s5 = ended s"
    "currentPlayerIndex s5 = Some cur" "winnerIndex s5 = winnerIndex s"
    "direction s5 = specDirection cd (direction s)"
    "n = specSteps cd (playerCount s)"
    using c1 c2 c3 c4 c5 pre(2) by (simp_all add: sameControl_def playerCount_def)
  from fin pre(1) pl(3) consider
    (finished) "hands s5 ! cur = []" "finishRound cur (s5\<lparr> pendingUno := None \<rparr>) = (Inr (), t)" |
    (advanced) "hands s5 ! cur \<noteq> []" "advance n s5 = (Inr (), t)" by auto
  then show ?thesis
  proof cases
    case finished
    from pre(1) pl(3) have "\<not> ended (s5\<lparr> pendingUno := None \<rparr>)" by simp
    from finishRound_apply [OF this, of cur] finished(2)
    have "t = s5\<lparr> pendingUno := None, ended := True, winnerIndex := Some cur,
                  currentPlayerIndex := None,
                  cachedScore := Some (computeScore cur (s5\<lparr> pendingUno := None \<rparr>)) \<rparr>" by simp
    then have "ended t" "currentPlayerIndex t = None" "winnerIndex t = Some cur"
      "pendingUno t = None" "hands t = hands s5" "players t = players s5" "dealer t = dealer s5"
      "direction t = direction s5" by simp_all
    with pre pl finished(1) show ?thesis by simp
  next
    case advanced
    from advance_apply [OF pl(4), of n] advanced(2)
    have "t = s5\<lparr> currentPlayerIndex :=
                    Some (nat (mod_js (int cur + n * direction s5) (int (playerCount s5)))) \<rparr>"
      by simp
    then have "ended t = ended s5" "winnerIndex t = winnerIndex s5" "hands t = hands s5"
      "players t = players s5" "dealer t = dealer s5" "direction t = direction s5"
      "currentPlayerIndex t = Some (nat (mod_js (int cur + n * direction s5) (int (playerCount s5))))"
      by simp_all
    with pre pl advanced(1) show ?thesis by (simp add: playerCount_def)
  qed
qed


section \<open>The invariant of reachable rounds\<close>


lemma distinct_singleton_iff: "distinct xs \<Longrightarrow> xs = [w] \<longleftrightarrow> set xs = {w}"
proof
  assume "distinct xs" and s: "set xs = {w}"
  then show "xs = [w]"
  proof (cases xs)
    case Nil
    with s show ?thesis by simp
  next
    case (Cons x ys)
    with s have x: "x = w" by auto
    from Cons s \<open>distinct xs\<close> x have "set ys \<subseteq> {w}" "w \<notin> set ys" by auto
    then have "ys = []" by (cases ys) auto
    with Cons x show ?thesis by simp
  qed
qed simp

lemma set_winners: "set (winners hs) = {i. i < length hs \<and> hs ! i = []}"
  by (auto simp: winners_def)

lemma distinct_winners: "distinct (winners hs)"
  by (simp add: winners_def)

lemma winners_Nil_iff: "winners hs = [] \<longleftrightarrow> (\<forall>i<length hs. hs ! i \<noteq> [])"
  by (auto simp: winners_def filter_empty_conv)

lemma winners_single_iff:
  "winners hs = [w] \<longleftrightarrow> w < length hs \<and> hs ! w = [] \<and> (\<forall>i<length hs. i \<noteq> w \<longrightarrow> hs ! i \<noteq> [])"
  unfolding distinct_singleton_iff [OF distinct_winners] set_winners by auto

lemma winners_length_le1:
  "winners hs = [] \<or> winners hs = [w] \<Longrightarrow> length (winners hs) \<le> 1"
  by auto

lemma list_all_mset_eq:
  assumes "mset cs + mset dp' + mset disc' = mset dp + mset disc"
    and "list_all P dp" and "list_all P disc"
  shows "list_all P cs \<and> list_all P dp' \<and> list_all P disc'"
proof -
  from assms(1) have "set_mset (mset cs + mset dp' + mset disc') = set_mset (mset dp + mset disc)"
    by simp
  then have "set cs \<union> set dp' \<union> set disc' = set dp \<union> set disc" by simp
  with assms(2,3) show ?thesis unfolding list_all_iff by blast
qed

lemma list_all_hands_grow:
  assumes "list_all (list_all P) hs" and "list_all P cs"
  shows "list_all (list_all P) (hs[v := hs ! v @ cs])"
proof (cases "v < length hs")
  case True
  with assms(1) have "list_all P (hs ! v)" by (simp add: list_all_length)
  with assms(2) have "list_all P (hs ! v @ cs)" by simp
  moreover have "set (hs[v := hs ! v @ cs]) \<subseteq> insert (hs ! v @ cs) (set hs)"
    by (rule set_update_subset_insert)
  ultimately show ?thesis using assms(1) unfolding list_all_iff by blast
next
  case False
  then have "hs[v := hs ! v @ cs] = hs" by (simp add: list_update_beyond)
  with assms(1) show ?thesis by simp
qed

lemma short_list_Nil: "length ws \<noteq> Suc 0 \<Longrightarrow> \<not> Suc 0 < length ws \<Longrightarrow> ws = []"
  by (cases ws) auto

lemma grown_hand_empty_iff:
  "i < length hs \<Longrightarrow> (hs[v := hs ! v @ cs]) ! i = [] \<longleftrightarrow> hs ! i = [] \<and> (i = v \<longrightarrow> cs = [])"
  by (cases "i = v") (simp_all add: nth_list_update)

lemma orElse_InrE:
  assumes "orElse r f = Inr s"
  obtains a where "r = Inr a" and "f a = Inr s"
  using assms by (cases r) (auto simp: orElse_def)

lemma createRoundFromMemento_Inr:
  assumes "createRoundFromMemento L m = Inr s"
  shows "2 \<le> length (m_players m) \<and> length (m_players m) \<le> 10 \<and>
         length (m_hands m) = length (m_players m) \<and>
         list_all (list_all (cardOk L)) (m_hands m) \<and> list_all (cardOk L) (m_drawPile m) \<and>
         list_all (cardOk L) (m_discardPile m) \<and> m_discardPile m \<noteq> [] \<and>
         m_currentColor m \<in> set (colors L) \<and>
         (\<exists>d. m_dealer m = JInt (int d) \<and> d < length (m_players m) \<and> dealer s = d) \<and>
         players s = m_players m \<and> hands s = m_hands m \<and> drawPileCards s = m_drawPile m \<and>
         discardPileCards s = m_discardPile m \<and> pendingUno s = None \<and> unoDeclared s = (\<lambda>_. False) \<and>
         cachedScore s = None \<and>
         direction s = (if m_currentDirection m = ''clockwise'' then 1 else - 1) \<and>
         (m_currentDirection m = ''clockwise'' \<or> m_currentDirection m = ''counterclockwise'') \<and>
         enforcedColor s = (if isWild (last (m_discardPile m)) then Some (m_currentColor m) else None) \<and>
         (\<not> isWild (last (m_discardPile m)) \<longrightarrow> colorOf (last (m_discardPile m)) = Some (m_currentColor m)) \<and>
         (if length (winners (m_hands m)) = 1
          then ended s \<and> currentPlayerIndex s = None \<and> winnerIndex s = Some (winners (m_hands m) ! 0)
          else winners (m_hands m) = [] \<and> \<not> ended s \<and> winnerIndex s = None \<and>
               (\<exists>c. m_playerInTurn m = Some (JInt (int c)) \<and> c < length (m_players m) \<and>
                    currentPlayerIndex s = Some c))"
  using assms unfolding createRoundFromMemento_def
  apply (elim orElse_InrE)
  apply (split if_split_asm, simp)
  apply (elim orElse_InrE)
  apply (split if_split_asm, simp)
  apply (split if_split_asm, simp)
  apply (elim orElse_InrE)
  subgoal premises p for u d dir col hs dp disc cur ec
  proof -
    from p(1) have a: "2 \<le> length (m_players m)" "length (m_players m) \<le> 10"
      by (auto simp: validatePlayers_def split: if_splits)
    from p(2) have b: "m_dealer m = JInt (int d)" "d < length (m_players m)"
      by (cases "m_dealer m"; auto simp: ensureIndex_def split: if_splits)+
    from p(3) have c: "dir = (if m_currentDirection m = ''clockwise'' then 1 else - 1)"
      "m_currentDirection m = ''clockwise'' \<or> m_currentDirection m = ''counterclockwise''"
      by (auto simp: toDirection_def split: if_splits)
    from p(4) have e: "col = m_currentColor m" "m_currentColor m \<in> set (colors L)"
      by (auto simp: ensureColorValue_def split: if_splits)
    from p have f: "length (m_hands m) = length (m_players m)" by simp
    from p have g: "hs = m_hands m" "list_all (list_all (cardOk L)) (m_hands m)"
      "dp = m_drawPile m" "list_all (cardOk L) (m_drawPile m)"
      "disc = m_discardPile m" "list_all (cardOk L) (m_discardPile m)"
      by (auto simp: cloneHands_def cloneCardsWithValidation_def split: if_splits)
    from p g have h: "m_discardPile m \<noteq> []" "\<not> 1 < length (winners (m_hands m))" by simp_all
    from p g e have k: "ec = (if isWild (last (m_discardPile m)) then Some (m_currentColor m) else None)"
      "\<not> isWild (last (m_discardPile m)) \<longrightarrow> colorOf (last (m_discardPile m)) = Some (m_currentColor m)"
      by (auto split: if_splits)
    from p g have l: "if length (winners (m_hands m)) = 1 then cur = None
        else (\<exists>c. m_playerInTurn m = Some (JInt (int c)) \<and> c < length (m_players m) \<and> cur = Some c)"
      by (cases "m_playerInTurn m"; cases "the (m_playerInTurn m)";
          auto simp: ensureIndex_def orElse_def split: if_splits)
    from p have n: "newRoundImpl (m_players m) d hs dp disc dir cur ec = Inr s" by simp
    show ?thesis
    proof (cases "length (winners (m_hands m)) = 1")
      case True
      with n g h have "s = \<lparr> players = m_players m, dealer = d, unoDeclared = (\<lambda>_. False), hands = hs,
                   drawPileCards = dp, discardPileCards = disc, direction = dir,
                   currentPlayerIndex = None, enforcedColor = ec, pendingUno = None,
                   ended = True, winnerIndex = Some (winners hs ! 0), cachedScore = None \<rparr>"
        by (simp add: newRoundImpl_def Let_def)
      with True a b c e f g h k show ?thesis by simp
    next
      case False
      with h(2) have w: "winners (m_hands m) = []" by (simp add: short_list_Nil)
      from False l obtain c0 where c0: "m_playerInTurn m = Some (JInt (int c0))"
        "c0 < length (m_players m)" "cur = Some c0" by auto
      with n g h w have "s = \<lparr> players = m_players m, dealer = d, unoDeclared = (\<lambda>_. False), hands = hs,
                   drawPileCards = dp, discardPileCards = disc, direction = dir,
                   currentPlayerIndex = cur, enforcedColor = ec, pendingUno = None,
                   ended = False, winnerIndex = None, cachedScore = None \<rparr>"
        by (simp add: newRoundImpl_def Let_def)
      with False w c0 a b c e f g h k show ?thesis by simp
    qed
  qed
  done

lemma roundInvD:
  assumes "roundInv L s"
  shows "2 \<le> length (players s)" and "length (players s) \<le> 10" and "dealer s < length (players s)"
    and "length (hands s) = length (players s)"
    and "direction s = 1 \<or> direction s = - 1"
    and "discardPileCards s \<noteq> []"
    and "enforcedColor s \<noteq> None \<longleftrightarrow> isWild (last (discardPileCards s))"
    and "\<And>c. enforcedColor s = Some c \<Longrightarrow> c \<in> set (colors L)"
    and "list_all (list_all (cardOk L)) (hands s)"
    and "list_all (cardOk L) (drawPileCards s)"
    and "list_all (cardOk L) (discardPileCards s)"
    and "\<And>p w. pendingUno s = Some (p, w) \<Longrightarrow> p < length (hands s) \<and> length (hands s ! p) = 1"
    and "ended s \<Longrightarrow> currentPlayerIndex s = None \<and> pendingUno s = None \<and>
           (\<exists>w. winnerIndex s = Some w \<and> winners (hands s) = [w])"
    and "\<not> ended s \<Longrightarrow> winnerIndex s = None \<and> winners (hands s) = [] \<and>
           (\<exists>c. currentPlayerIndex s = Some c \<and> c < length (players s))"
  using assms unfolding roundInv_def by (simp_all split: if_splits)

lemma roundInvI:
  assumes "2 \<le> length (players s)" and "length (players s) \<le> 10" and "dealer s < length (players s)"
    and "length (hands s) = length (players s)"
    and "direction s = 1 \<or> direction s = - 1"
    and "discardPileCards s \<noteq> []"
    and "enforcedColor s \<noteq> None \<longleftrightarrow> isWild (last (discardPileCards s))"
    and "\<And>c. enforcedColor s = Some c \<Longrightarrow> c \<in> set (colors L)"
    and "list_all (list_all (cardOk L)) (hands s)"
    and "list_all (cardOk L) (drawPileCards s)"
    and "list_all (cardOk L) (discardPileCards s)"
    and "\<And>p w. pendingUno s = Some (p, w) \<Longrightarrow> p < length (hands s) \<and> length (hands s ! p) = 1"
    and "ended s \<Longrightarrow> currentPlayerIndex s = None \<and> pendingUno s = None \<and>
           (\<exists>w. winnerIndex s = Some w \<and> winners (hands s) = [w])"
    and "\<not> ended s \<Longrightarrow> winnerIndex s = None \<and> winners (hands s) = [] \<and>
           (\<exists>c. currentPlayerIndex s = Some c \<and> c < length (players s))"
  shows "roundInv L s"
  unfolding roundInv_def using assms by (simp split: if_splits)

lemma single_winner: "length ws = 1 \<Longrightarrow> ws = [ws ! 0]"
  by (cases ws) auto

lemma created_inv:
  assumes "createRoundFromMemento L m = Inr s"
  shows "roundInv L s"
proof -
  note C = createRoundFromMemento_Inr [OF assms]
  show ?thesis
  proof (rule roundInvI)
    show "2 \<le> length (players s)" "length (players s) \<le> 10" "dealer s < length (players s)"
      "length (hands s) = length (players s)" using C by auto
    show "direction s = 1 \<or> direction s = - 1" using C by simp
    show "discardPileCards s \<noteq> []" using C by simp
    show "enforcedColor s \<noteq> None \<longleftrightarrow> isWild (last (discardPileCards s))" using C by simp
    show "\<And>c. enforcedColor s = Some c \<Longrightarrow> c \<in> set (colors L)" using C by (simp split: if_splits)
    show "list_all (list_all (cardOk L)) (hands s)" "list_all (cardOk L) (drawPileCards s)"
      "list_all (cardOk L) (discardPileCards s)" using C by simp_all
    show "\<And>p w. pendingUno s = Some (p, w) \<Longrightarrow> p < length (hands s) \<and> length (hands s ! p) = 1"
      using C by simp
    show "ended s \<Longrightarrow> currentPlayerIndex s = None \<and> pendingUno s = None \<and>
           (\<exists>w. winnerIndex s = Some w \<and> winners (hands s) = [w])"
      using C single_winner [of "winners (m_hands m)"] by (auto split: if_splits)
    show "\<not> ended s \<Longrightarrow> winnerIndex s = None \<and> winners (hands s) = [] \<and>
           (\<exists>c. currentPlayerIndex s = Some c \<and> c < length (players s))"
      using C by (auto split: if_splits)
  qed
qed

lemma specDirection_unit: "d = 1 \<or> d = - 1 \<Longrightarrow> specDirection cd d = 1 \<or> specDirection cd d = - 1"
  by (cases cd) (auto simp: specDirection_def)

lemma mod_js_index: "0 < n \<Longrightarrow> nat (mod_js v (int n)) < n"
  by (simp add: mod_js_eq nat_less_iff)

lemma spliced_subset: "set (take k h @ drop (Suc k) h) \<subseteq> set h"
  using set_take_subset [of k h] set_drop_subset [of "Suc k" h] by auto

lemma play_inv:
  assumes I: "roundInv L s" and sh: "isShuffle sh" and P: "play L sh i col s = (Inr cd, t)"
  shows "roundInv L t"
proof -
  from play_Inr_chain [OF P] obtain cur s1 s2 s3 s4 s5 n where
    pre: "\<not> ended s" "currentPlayerIndex s = Some cur" "cur < length (hands s)"
         "0 \<le> i" "nat i < length (hands s ! cur)" "cd = hands s ! cur ! nat i" and
    s1: "markActionBy cur s = (Inr (), s1)" and
    s2: "s2 = s1\<lparr> hands := (hands s1)[cur := take (nat i) (hands s ! cur) @
                                               drop (Suc (nat i)) (hands s ! cur)],
                      discardPileCards := discardPileCards s1 @ [cd] \<rparr>" and
    s3: "setEnforcedColor L cd col s2 = (Inr (), s3)" and
    s4: "cardEffect sh cd s3 = (Inr n, s4)" and
    s5: "updateUnoStateFor cur s4 = (Inr (), s5)" and
    fin: "hands s5 ! cur = [] \<and> finishRound cur (s5\<lparr> pendingUno := None \<rparr>) = (Inr (), t) \<or>
          hands s5 ! cur \<noteq> [] \<and> \<not> ended s5 \<and> advance n s5 = (Inr (), t) \<or>
          hands s5 ! cur \<noteq> [] \<and> ended s5 \<and> t = s5"
    by blast
  note inv = roundInvD [OF I]
  let ?h = "hands s ! cur"
  let ?h' = "take (nat i) ?h @ drop (Suc (nat i)) ?h"
  let ?H2 = "(hands s)[cur := ?h']"
  from s1 have e1: "hands s1 = hands s" "drawPileCards s1 = drawPileCards s"
    "discardPileCards s1 = discardPileCards s" and c1: "sameControl s s1"
    by (auto simp: markActionBy_apply sameControl_def)
  from s2 e1 have e2: "hands s2 = ?H2" "drawPileCards s2 = drawPileCards s"
    "discardPileCards s2 = discardPileCards s @ [cd]" by simp_all
  from s2 have c2: "players s2 = players s1" "dealer s2 = dealer s1" "direction s2 = direction s1"
    "currentPlayerIndex s2 = currentPlayerIndex s1" "ended s2 = ended s1"
    "winnerIndex s2 = winnerIndex s1" by simp_all
  from setEnforcedColor_Inr [OF s3]
  have c3: "players s3 = players s2" "dealer s3 = dealer s2" "direction s3 = direction s2"
    "currentPlayerIndex s3 = currentPlayerIndex s2" "ended s3 = ended s2"
    "winnerIndex s3 = winnerIndex s2" by (cases "isWild cd"; auto)+
  from setEnforcedColor_Inr [OF s3]
  have e3: "hands s3 = hands s2" "drawPileCards s3 = drawPileCards s2"
    "discardPileCards s3 = discardPileCards s2" by (cases "isWild cd"; auto)+
  from setEnforcedColor_Inr [OF s3]
  have ec3: "enforcedColor s3 \<noteq> None \<longleftrightarrow> isWild cd"
    "\<And>c. enforcedColor s3 = Some c \<Longrightarrow> c \<in> set (colors L)" by (cases "isWild cd"; auto)+
  note c4 = cardEffect_control [OF s4]
  from e3 e2 have ne3: "discardPileCards s3 \<noteq> []" "last (discardPileCards s3) = cd" by simp_all
  from cardEffect_piles [OF s4] sh ne3 obtain v cs where
    v: "hands s4 = (hands s3)[v := hands s3 ! v @ cs]" and
    ms: "mset cs + mset (drawPileCards s4) + mset (discardPileCards s4) =
         mset (drawPileCards s3) + mset (discardPileCards s3)" and
    top4: "discardPileCards s4 \<noteq> []" "last (discardPileCards s4) = cd"
    by auto
  note U = updateUnoStateFor_Inr [OF s5]
  from U have c5: "sameControl s4 s5" by simp
  have pl: "players s5 = players s" "dealer s5 = dealer s" "ended s5 = ended s"
    "currentPlayerIndex s5 = Some cur" "winnerIndex s5 = winnerIndex s"
    "direction s5 = specDirection cd (direction s)" "enforcedColor s5 = enforcedColor s3"
    using c1 c2 c3 c4 c5 pre(2) by (simp_all add: sameControl_def)
  have h5: "hands s5 = ?H2[v := ?H2 ! v @ cs]" "drawPileCards s5 = drawPileCards s4"
    "discardPileCards s5 = discardPileCards s4"
    using U v e3 e2 by simp_all
  have ne5: "\<not> ended (s5\<lparr> pendingUno := None \<rparr>)" using pre(1) pl(3) by simp
  from fin pre(1) pl(3) have fin':
    "hands s5 ! cur = [] \<and>
      t = s5\<lparr> pendingUno := None, ended := True, winnerIndex := Some cur,
                currentPlayerIndex := None,
                cachedScore := Some (computeScore cur (s5\<lparr> pendingUno := None \<rparr>)) \<rparr> \<or>
     hands s5 ! cur \<noteq> [] \<and>
      t = s5\<lparr> currentPlayerIndex :=
                  Some (nat (mod_js (int cur + n * direction s5) (int (playerCount s5)))) \<rparr>"
    unfolding finishRound_apply [OF ne5] advance_apply [OF pl(4)] by auto
  have same: "players t = players s5" "dealer t = dealer s5"
    "direction t = direction s5" "enforcedColor t = enforcedColor s5"
    "hands t = hands s5" "drawPileCards t = drawPileCards s5"
    "discardPileCards t = discardPileCards s5"
    "pendingUno t = None \<or> pendingUno t = pendingUno s5"
    using fin' by auto
  have hands_t: "hands t = ?H2[v := ?H2 ! v @ cs]" using same(5) h5(1) by simp
  have len: "length (hands t) = length (hands s)" unfolding hands_t by simp
  have cdok: "cardOk L cd" using inv(9) pre(3,5,6) by (simp add: list_all_length)
  have hok: "list_all (cardOk L) ?h'"
  proof -
    from inv(9) pre(3) have "list_all (cardOk L) ?h" by (simp add: list_all_length)
    with spliced_subset [of "nat i" ?h] show ?thesis unfolding list_all_iff by blast
  qed
  have H2ok: "list_all (list_all (cardOk L)) ?H2"
    using inv(9) hok set_update_subset_insert [of "hands s" cur ?h'] unfolding list_all_iff
    by blast
  from ms e3 e2 have ms': "mset cs + mset (drawPileCards s4) + mset (discardPileCards s4) =
         mset (drawPileCards s) + mset (discardPileCards s @ [cd])" by simp
  have "list_all (cardOk L) (discardPileCards s @ [cd])" using inv(11) cdok by simp
  from list_all_mset_eq [OF ms' inv(10) this]
  have pok: "list_all (cardOk L) cs" "list_all (cardOk L) (drawPileCards s4)"
    "list_all (cardOk L) (discardPileCards s4)" by simp_all
  have others: "hands t ! j \<noteq> []" if j: "j < length (hands s)" "j \<noteq> cur" for j
  proof -
    from inv(14) [OF pre(1)] j(1) have "hands s ! j \<noteq> []" by (simp add: winners_Nil_iff)
    with j have "?H2 ! j \<noteq> []" by simp
    with j(1) show "hands t ! j \<noteq> []" unfolding hands_t by (simp add: grown_hand_empty_iff)
  qed
  have n0: "0 < playerCount s5" using inv(1) pl(1) by (auto simp: playerCount_def)
  show ?thesis
  proof (rule roundInvI)
    show "2 \<le> length (players t)" "length (players t) \<le> 10" "dealer t < length (players t)"
      using inv(1-3) same(1,2) pl(1,2) by simp_all
    show "length (hands t) = length (players t)" using len inv(4) same(1) pl(1) by simp
    show "direction t = 1 \<or> direction t = - 1"
      unfolding same(3) pl(6) by (rule specDirection_unit [OF inv(5)])
    show "discardPileCards t \<noteq> []" using top4 same(7) h5(3) by simp
    show "enforcedColor t \<noteq> None \<longleftrightarrow> isWild (last (discardPileCards t))"
      using ec3(1) top4 same(4,7) h5(3) pl(7) by simp
    show "\<And>c. enforcedColor t = Some c \<Longrightarrow> c \<in> set (colors L)"
      using ec3(2) same(4) pl(7) by simp
    show "list_all (list_all (cardOk L)) (hands t)"
      unfolding hands_t by (rule list_all_hands_grow [OF H2ok pok(1)])
    show "list_all (cardOk L) (drawPileCards t)" "list_all (cardOk L) (discardPileCards t)"
      using pok same(6,7) h5(2,3) by simp_all
    show "p < length (hands t) \<and> length (hands t ! p) = 1" if "pendingUno t = Some (p, w)" for p w
    proof -
      from that same(8) have "pendingUno s5 = Some (p, w)" by auto
      with U show ?thesis using same(5) by simp
    qed
    show "currentPlayerIndex t = None \<and> pendingUno t = None \<and>
           (\<exists>w. winnerIndex t = Some w \<and> winners (hands t) = [w])" if "ended t"
    proof -
      from that fin' pre(1) pl(3) have f: "hands s5 ! cur = []" "currentPlayerIndex t = None"
        "pendingUno t = None" "winnerIndex t = Some cur" by auto
      have "winners (hands t) = [cur]"
        unfolding winners_single_iff using f(1) same(5) pre(3) len others by auto
      with f show ?thesis by simp
    qed
    show "winnerIndex t = None \<and> winners (hands t) = [] \<and>
           (\<exists>c. currentPlayerIndex t = Some c \<and> c < length (players t))" if "\<not> ended t"
    proof -
      from that fin' have f: "hands s5 ! cur \<noteq> []" "winnerIndex t = winnerIndex s5"
        "currentPlayerIndex t =
           Some (nat (mod_js (int cur + n * direction s5) (int (playerCount s5))))" by auto
      have "winners (hands t) = []"
        unfolding winners_Nil_iff using f(1) same(5) len others by (metis)
      moreover have "winnerIndex t = None" using f(2) pl(5) inv(14) [OF pre(1)] by simp
      moreover have "nat (mod_js (int cur + n * direction s5) (int (playerCount s5))) < length (players t)"
        using mod_js_index [OF n0] same(1) by (simp add: playerCount_def)
      ultimately show ?thesis using f(3) by simp
    qed
  qed
qed

lemma winners_grow:
  assumes "v < length hs \<Longrightarrow> hs ! v \<noteq> []"
  shows "winners (hs[v := hs ! v @ cs]) = winners hs"
proof -
  have "(hs[v := hs ! v @ cs]) ! i = [] \<longleftrightarrow> hs ! i = []" if "i < length hs" for i
    using that assms by (cases "i = v") (simp_all add: nth_list_update)
  then show ?thesis unfolding winners_def by (auto intro: filter_cong)
qed

lemma inv_grow:
  assumes I: "roundInv L s" and ne: "\<not> ended s"
    and ctl: "players t = players s" "dealer t = dealer s" "direction t = direction s"
      "enforcedColor t = enforcedColor s" "ended t = ended s" "winnerIndex t = winnerIndex s"
    and cur: "\<exists>c. currentPlayerIndex t = Some c \<and> c < length (players s)"
    and hands: "hands t = (hands s)[v := hands s ! v @ cs]"
    and ms: "mset cs + mset (drawPileCards t) + mset (discardPileCards t) =
             mset (drawPileCards s) + mset (discardPileCards s)"
    and top: "discardPileCards t \<noteq> []" "last (discardPileCards t) = last (discardPileCards s)"
    and pu: "\<And>p w. pendingUno t = Some (p, w) \<Longrightarrow> p < length (hands t) \<and> length (hands t ! p) = 1"
  shows "roundInv L t"
proof -
  note inv = roundInvD [OF I]
  from list_all_mset_eq [OF ms inv(10) inv(11)]
  have pok: "list_all (cardOk L) cs" "list_all (cardOk L) (drawPileCards t)"
    "list_all (cardOk L) (discardPileCards t)" by simp_all
  have w: "winners (hands t) = []"
  proof -
    have "hands s ! v \<noteq> []" if "v < length (hands s)"
      using inv(14) [OF ne] that by (simp add: winners_Nil_iff)
    from winners_grow [of v "hands s" cs, OF this] show ?thesis
      using inv(14) [OF ne] hands by simp
  qed
  show ?thesis
  proof (rule roundInvI)
    show "2 \<le> length (players t)" "length (players t) \<le> 10" "dealer t < length (players t)"
      using inv(1-3) ctl by simp_all
    show "length (hands t) = length (players t)" using inv(4) ctl hands by simp
    show "direction t = 1 \<or> direction t = - 1" using inv(5) ctl by simp
    show "discardPileCards t \<noteq> []" by (rule top(1))
    show "enforcedColor t \<noteq> None \<longleftrightarrow> isWild (last (discardPileCards t))"
      using inv(7) ctl top by simp
    show "\<And>c. enforcedColor t = Some c \<Longrightarrow> c \<in> set (colors L)" using inv(8) ctl by simp
    show "list_all (list_all (cardOk L)) (hands t)"
      unfolding hands by (rule list_all_hands_grow [OF inv(9) pok(1)])
    show "list_all (cardOk L) (drawPileCards t)" "list_all (cardOk L) (discardPileCards t)"
      by (rule pok)+
    show "\<And>p w. pendingUno t = Some (p, w) \<Longrightarrow> p < length (hands t) \<and> length (hands t ! p) = 1"
      by (rule pu)
    show "ended t \<Longrightarrow> currentPlayerIndex t = None \<and> pendingUno t = None \<and>
           (\<exists>w. winnerIndex t = Some w \<and> winners (hands t) = [w])"
      using ne ctl by simp
    show "\<not> ended t \<Longrightarrow> winnerIndex t = None \<and> winners (hands t) = [] \<and>
           (\<exists>c. currentPlayerIndex t = Some c \<and> c < length (players t))"
      using inv(14) [OF ne] ctl w cur by simp
  qed
qed

lemma draw_Inr_chain:
  assumes "draw L sh s = (Inr cd, t)"
  shows "\<exists>cur s1 s2 s3 s4.
           \<not> ended s \<and> currentPlayerIndex s = Some cur \<and>
           markActionBy cur s = (Inr (), s1) \<and>
           takeFromDrawPile sh s1 = (Inr cd, s2) \<and> cur < length (hands s2) \<and>
           s3 = s2\<lparr> hands := (hands s2)[cur := hands s2 ! cur @ [cd]] \<rparr> \<and>
           updateUnoStateFor cur s3 = (Inr (), s4) \<and>
           (\<not> canPlayCard L cd (topCard s4) (enforcedColor s4) \<and> advance 1 s4 = (Inr (), t) \<or>
            canPlayCard L cd (topCard s4) (enforcedColor s4) \<and> t = s4)"
  using assms unfolding draw_def
  apply (elim andThen_InrE)
  subgoal premises p for a ta aa taa ab tb ac tc ad td ae te af tf ag tg
  proof -
    from p have a: "\<not> ended s" "ta = s"
      by (auto simp: ensureActiveRound_def split: if_splits)
    from p a have b: "currentPlayerIndex s = Some aa" "taa = s"
      by (auto simp: ensureCurrentPlayer_def split: option.splits)
    from p b have c: "markActionBy aa s = (Inr (), tb)" by simp
    from p have d: "takeFromDrawPile sh tb = (Inr ac, tc)" by simp
    from p have e: "aa < length (hands tc)" "ad = hands tc ! aa" "td = tc"
      by (auto simp: handOf_Inr_iff)
    from p e have f: "te = tc\<lparr> hands := (hands tc)[aa := hands tc ! aa @ [ac]] \<rparr>"
      by (auto simp: modify_def)
    from p have g: "updateUnoStateFor aa te = (Inr (), tf)" by simp
    from p have h: "cd = ac" "tg = t" by (auto simp: ret_def)
    from p h have k:
      "\<not> canPlayCard L cd (topCard tf) (enforcedColor tf) \<and> advance 1 tf = (Inr (), t) \<or>
       canPlayCard L cd (topCard tf) (enforcedColor tf) \<and> t = tf"
      by (auto split: if_splits)
    show ?thesis using a b c d e f g h k by blast
  qed
  done

lemma draw_effect:
  assumes "draw L sh s = (Inr cd, t)"
  shows "\<exists>cur. \<not> ended s \<and> currentPlayerIndex s = Some cur \<and> cur < length (hands s) \<and>
           players t = players s \<and> dealer t = dealer s \<and> direction t = direction s \<and>
           enforcedColor t = enforcedColor s \<and> ended t = ended s \<and>
           winnerIndex t = winnerIndex s \<and> cachedScore t = cachedScore s \<and>
           hands t = (hands s)[cur := hands s ! cur @ [cd]] \<and>
           (if drawPileCards s = []
            then 1 < length (discardPileCards s) \<and>
                 sh (butlast (discardPileCards s)) = cd # drawPileCards t \<and>
                 discardPileCards t = [last (discardPileCards s)]
            else drawPileCards s = cd # drawPileCards t \<and>
                 discardPileCards t = discardPileCards s) \<and>
           (\<forall>p w. pendingUno t = Some (p, w) \<longrightarrow>
                  p < length (hands t) \<and> length (hands t ! p) = 1) \<and>
           currentPlayerIndex t =
             (if canPlayCard L cd (topCard t) (enforcedColor t) then Some cur
              else Some (nat (mod_js (int cur + direction s) (int (playerCount s)))))"
proof -
  from draw_Inr_chain [OF assms] obtain cur s1 s2 s3 s4 where
    pre: "\<not> ended s" "currentPlayerIndex s = Some cur" and
    s1: "markActionBy cur s = (Inr (), s1)" and
    s2: "takeFromDrawPile sh s1 = (Inr cd, s2)" and cur2: "cur < length (hands s2)" and
    s3: "s3 = s2\<lparr> hands := (hands s2)[cur := hands s2 ! cur @ [cd]] \<rparr>" and
    s4: "updateUnoStateFor cur s3 = (Inr (), s4)" and
    fin: "\<not> canPlayCard L cd (topCard s4) (enforcedColor s4) \<and> advance 1 s4 = (Inr (), t) \<or>
          canPlayCard L cd (topCard s4) (enforcedColor s4) \<and> t = s4"
    by blast
  from s1 have e1: "hands s1 = hands s" "drawPileCards s1 = drawPileCards s"
    "discardPileCards s1 = discardPileCards s" and c1: "sameControl s s1"
    by (auto simp: markActionBy_apply sameControl_def)
  note T = takeFromDrawPile_Inr [OF s2]
  from T have c2: "sameControl s1 s2" and e2: "hands s2 = hands s1" by simp_all
  from s3 have c3: "sameControl s2 s3" and e3: "hands s3 = (hands s2)[cur := hands s2 ! cur @ [cd]]"
    "drawPileCards s3 = drawPileCards s2" "discardPileCards s3 = discardPileCards s2"
    by (simp_all add: sameControl_def)
  note U = updateUnoStateFor_Inr [OF s4]
  from U have c4: "sameControl s3 s4" by simp
  have c: "sameControl s s4"
    using c1 c2 c3 c4 by (blast intro: sameControl_trans)
  have h4: "hands s4 = (hands s)[cur := hands s ! cur @ [cd]]"
    using U e3 e2 e1 by simp
  have p4: "drawPileCards s4 = drawPileCards s2" "discardPileCards s4 = discardPileCards s2"
    using U e3 by simp_all
  have cur4: "currentPlayerIndex s4 = Some cur" using c pre(2) by (simp add: sameControl_def)
  have t: "t = (if canPlayCard L cd (topCard s4) (enforcedColor s4) then s4
               else s4\<lparr> currentPlayerIndex :=
                     Some (nat (mod_js (int cur + direction s4) (int (playerCount s4)))) \<rparr>)"
    using fin advance_apply [OF cur4, of 1] by auto
  have tc: "topCard t = topCard s4" "enforcedColor t = enforcedColor s4"
    by (simp_all add: t topCard_def)
  have f: "players t = players s4" "dealer t = dealer s4" "direction t = direction s4"
    "ended t = ended s4" "winnerIndex t = winnerIndex s4" "cachedScore t = cachedScore s4"
    "hands t = hands s4" "drawPileCards t = drawPileCards s4"
    "discardPileCards t = discardPileCards s4" "pendingUno t = pendingUno s4"
    by (simp_all add: t)
  have ci: "currentPlayerIndex t =
             (if canPlayCard L cd (topCard t) (enforcedColor t) then Some cur
              else Some (nat (mod_js (int cur + direction s) (int (playerCount s)))))"
    unfolding tc using t cur4 c by (simp add: sameControl_def playerCount_def)
  have pile: "if drawPileCards s = []
            then 1 < length (discardPileCards s) \<and>
                 sh (butlast (discardPileCards s)) = cd # drawPileCards t \<and>
                 discardPileCards t = [last (discardPileCards s)]
            else drawPileCards s = cd # drawPileCards t \<and>
                 discardPileCards t = discardPileCards s"
    using T e1 p4 f(8,9) by (simp split: if_splits)
  have pu: "\<forall>p w. pendingUno t = Some (p, w) \<longrightarrow>
                  p < length (hands t) \<and> length (hands t ! p) = 1"
    using U f(7,10) by simp
  have "cur < length (hands s)" using cur2 e2 e1 by simp
  with pre c f h4 tc ci pile pu show ?thesis
    by (simp add: sameControl_def)
qed

lemma draw_inv:
  assumes I: "roundInv L s" and sh: "isShuffle sh" and D: "draw L sh s = (Inr cd, t)"
  shows "roundInv L t"
proof -
  note inv = roundInvD [OF I]
  from draw_effect [OF D] obtain cur where
    E: "\<not> ended s" "currentPlayerIndex s = Some cur" "cur < length (hands s)"
       "players t = players s" "dealer t = dealer s" "direction t = direction s"
       "enforcedColor t = enforcedColor s" "ended t = ended s"
       "winnerIndex t = winnerIndex s"
       "hands t = (hands s)[cur := hands s ! cur @ [cd]]"
       "if drawPileCards s = []
            then 1 < length (discardPileCards s) \<and>
                 sh (butlast (discardPileCards s)) = cd # drawPileCards t \<and>
                 discardPileCards t = [last (discardPileCards s)]
            else drawPileCards s = cd # drawPileCards t \<and>
                 discardPileCards t = discardPileCards s"
       "\<forall>p w. pendingUno t = Some (p, w) \<longrightarrow>
                  p < length (hands t) \<and> length (hands t ! p) = 1"
       "currentPlayerIndex t =
             (if canPlayCard L cd (topCard t) (enforcedColor t) then Some cur
              else Some (nat (mod_js (int cur + direction s) (int (playerCount s)))))"
    by blast
  have n0: "0 < playerCount s" using inv(1) by (auto simp: playerCount_def)
  have cur: "\<exists>c. currentPlayerIndex t = Some c \<and> c < length (players s)"
    using E(3,13) inv(4) mod_js_index [OF n0] by (auto simp: playerCount_def)
  have ms: "mset [cd] + mset (drawPileCards t) + mset (discardPileCards t) =
            mset (drawPileCards s) + mset (discardPileCards s)"
  proof (cases "drawPileCards s = []")
    case True
    with E(11) have r: "1 < length (discardPileCards s)"
      "sh (butlast (discardPileCards s)) = cd # drawPileCards t"
      "discardPileCards t = [last (discardPileCards s)]" by simp_all
    from sh have "mset (sh (butlast (discardPileCards s))) = mset (butlast (discardPileCards s))"
      by (simp add: isShuffle_def)
    with r(2) have "add_mset cd (mset (drawPileCards t)) = mset (butlast (discardPileCards s))"
      by simp
    then have "add_mset cd (mset (drawPileCards t)) + {#last (discardPileCards s)#} =
               mset (discardPileCards s)"
      using mset_butlast_last [OF inv(6)] by simp
    with True r(3) show ?thesis by simp
  next
    case False
    with E(11) show ?thesis by auto
  qed
  have top: "discardPileCards t \<noteq> []" "last (discardPileCards t) = last (discardPileCards s)"
    using E(11) inv(6) by (auto split: if_splits)
  show ?thesis
    by (rule inv_grow [OF I E(1) E(4-9) cur E(10) ms top]) (use E(12) in blast)
qed

lemma ensurePlayerIndex_Inr_iff:
  "ensurePlayerIndex p s = (Inr q, t) \<longleftrightarrow>
     t = s \<and> p = JInt (int q) \<and> q < playerCount s"
  by (cases p) (auto simp: ensurePlayerIndex_def ensureIndex_def)

lemma ensurePlayerIndex_Inl_iff:
  "ensurePlayerIndex p s = (Inl e, t) \<longleftrightarrow>
     t = s \<and> (case p of
                JNonInteger \<Rightarrow> e = MustBeInteger ''player''
              | JInt i \<Rightarrow> (i < 0 \<or> int (playerCount s) \<le> i) \<and> e = IsOutOfBounds ''player'')"
  by (cases p) (auto simp: ensurePlayerIndex_def ensureIndex_def)

lemma sayUno_Inr:
  assumes "sayUno p s = (Inr u, t)"
  shows "\<exists>q. p = JInt (int q) \<and> q < playerCount s \<and> \<not> ended s \<and> q < length (hands s) \<and>
              length (hands s ! q) \<le> 2 \<and>
              t = clearPendingOf q (s\<lparr> unoDeclared := (unoDeclared s)(q := True) \<rparr>)"
  using assms
  by (auto simp: sayUno_def andThen_Inr_iff ensurePlayerIndex_Inr_iff ensureActiveRound_def
      handOf_Inr_iff action_simps split: if_splits)

lemma sayUno_inv:
  assumes I: "roundInv L s" and S: "sayUno p s = (Inr u, t)"
  shows "roundInv L t"
proof -
  from sayUno_Inr [OF S] obtain q where
    t: "t = clearPendingOf q (s\<lparr> unoDeclared := (unoDeclared s)(q := True) \<rparr>)" by blast
  have f: "players t = players s" "dealer t = dealer s" "direction t = direction s"
    "enforcedColor t = enforcedColor s" "ended t = ended s" "winnerIndex t = winnerIndex s"
    "currentPlayerIndex t = currentPlayerIndex s" "hands t = hands s"
    "drawPileCards t = drawPileCards s" "discardPileCards t = discardPileCards s"
    "pendingUno t = None \<or> pendingUno t = pendingUno s"
    unfolding t clearPendingOf_eq by (auto split: option.splits)
  note inv = roundInvD [OF I]
  show ?thesis
  proof (rule roundInvI)
    show "p < length (hands t) \<and> length (hands t ! p) = 1" if "pendingUno t = Some (p, w)" for p w
    proof -
      from that f(11) have "pendingUno s = Some (p, w)" by auto
      from inv(12) [OF this] f(8) show ?thesis by simp
    qed
    show "currentPlayerIndex t = None \<and> pendingUno t = None \<and>
           (\<exists>w. winnerIndex t = Some w \<and> winners (hands t) = [w])" if "ended t"
      using that inv(13) f by auto
    show "winnerIndex t = None \<and> winners (hands t) = [] \<and>
           (\<exists>c. currentPlayerIndex t = Some c \<and> c < length (players t))" if "\<not> ended t"
      using that inv(14) f by auto
  qed (use inv f in simp_all)
qed

lemma catchUnoFailure_index_error:
  assumes "ensurePlayerIndex accuser s = (Inl e, s) \<or>
           (\<exists>q. ensurePlayerIndex accuser s = (Inr q, s)) \<and> ensurePlayerIndex accused s = (Inl e, s)"
  shows "catchUnoFailure sh accuser accused s = (Inl e, s)"
  using assms by (auto simp: catchUnoFailure_def andThen_apply)

lemma catchUnoFailure_valid:
  assumes "b < playerCount s" and "a < playerCount s"
  shows "catchUnoFailure sh (JInt (int b)) (JInt (int a)) s =
           (if pendingUno s = Some (a, True) \<and> \<not> unoDeclared s a
            then if a < length (hands s)
                 then if length (hands s ! a) = 1
                      then (case applyPenalty sh a 4 (s\<lparr> pendingUno := None \<rparr>) of
                              (Inl e, t) \<Rightarrow> (Inl e, t)
                            | (Inr u, t) \<Rightarrow>
                                (Inr True, t\<lparr> unoDeclared := (unoDeclared t)(a := False) \<rparr>))
                      else (Inr False, s)
                 else (Inl TypeError, s)
            else (Inr False, s))"
  using assms
  by (auto simp: catchUnoFailure_def andThen_apply ensurePlayerIndex_def ensureIndex_def
      handOf_def action_simps split: option.splits prod.splits sum.splits)

lemma catchUnoFailure_not_catchable:
  assumes "b < playerCount s" and "a < playerCount s" and "a < length (hands s)"
    and "\<not> specCatchable s a"
  shows "catchUnoFailure sh (JInt (int b)) (JInt (int a)) s = (Inr False, s)"
  using assms(3,4) unfolding catchUnoFailure_valid [OF assms(1,2)]
  by (auto simp: specCatchable_def)

lemma catchUnoFailure_catchable:
  assumes "b < playerCount s" and "a < playerCount s" and "a < length (hands s)"
    and "specCatchable s a"
  shows "catchUnoFailure sh (JInt (int b)) (JInt (int a)) s =
           (case applyPenalty sh a 4 (s\<lparr> pendingUno := None \<rparr>) of
              (Inl e, t) \<Rightarrow> (Inl e, t)
            | (Inr u, t) \<Rightarrow> (Inr True, t\<lparr> unoDeclared := (unoDeclared t)(a := False) \<rparr>))"
  using assms(3,4) unfolding catchUnoFailure_valid [OF assms(1,2)]
  by (auto simp: specCatchable_def)

lemma catchUnoFailure_indices:
  assumes "catchUnoFailure sh accuser accused s = (Inr r, t)"
  shows "\<exists>b a. accuser = JInt (int b) \<and> accused = JInt (int a) \<and> b < playerCount s \<and>
               a < playerCount s"
proof -
  from assms obtain b s1 where b: "ensurePlayerIndex accuser s = (Inr b, s1)"
    unfolding catchUnoFailure_def by (elim andThen_InrE) blast
  from assms obtain a s2 where a: "ensurePlayerIndex accused s1 = (Inr a, s2)"
    unfolding catchUnoFailure_def using b by (elim andThen_InrE) auto
  from a b show ?thesis by (auto simp: ensurePlayerIndex_Inr_iff)
qed

lemma catchUnoFailure_Inr:
  assumes "catchUnoFailure sh accuser accused s = (Inr r, t)"
  shows "\<exists>b a. accuser = JInt (int b) \<and> accused = JInt (int a) \<and> b < playerCount s \<and>
               a < playerCount s \<and>
               (if r then a < length (hands s) \<and> specCatchable s a \<and>
                          (\<exists>t'. applyPenalty sh a 4 (s\<lparr> pendingUno := None \<rparr>) = (Inr (), t') \<and>
                                t = t'\<lparr> unoDeclared := (unoDeclared t')(a := False) \<rparr>)
                else t = s)"
proof -
  from catchUnoFailure_indices [OF assms] obtain b a where
    i: "accuser = JInt (int b)" "accused = JInt (int a)" "b < playerCount s" "a < playerCount s"
    by blast
  from assms have
    "(if r then a < length (hands s) \<and> specCatchable s a \<and>
                          (\<exists>t'. applyPenalty sh a 4 (s\<lparr> pendingUno := None \<rparr>) = (Inr (), t') \<and>
                                t = t'\<lparr> unoDeclared := (unoDeclared t')(a := False) \<rparr>)
                else t = s)"
    unfolding i(1,2) catchUnoFailure_valid [OF i(3,4)]
    by (auto simp: specCatchable_def split: if_splits prod.splits sum.splits)
  with i show ?thesis by blast
qed

lemma catchUnoFailure_inv:
  assumes I: "roundInv L s" and sh: "isShuffle sh"
    and C: "catchUnoFailure sh accuser accused s = (Inr r, t)"
  shows "roundInv L t"
proof (cases r)
  case False
  with catchUnoFailure_Inr [OF C] I show ?thesis by auto
next
  case True
  note inv = roundInvD [OF I]
  from True catchUnoFailure_Inr [OF C] obtain a t' where
    a: "a < length (hands s)" "specCatchable s a" and
    ap: "applyPenalty sh a 4 (s\<lparr> pendingUno := None \<rparr>) = (Inr (), t')" and
    t: "t = t'\<lparr> unoDeclared := (unoDeclared t')(a := False) \<rparr>" by auto
  from a(2) inv(13) have ne: "\<not> ended s" by (auto simp: specCatchable_def)
  note AP = applyPenalty_Inr [OF ap]
  from AP sh have "\<exists>cs. hands t' = (hands s)[a := hands s ! a @ cs] \<and>
       mset cs + mset (drawPileCards t') + mset (discardPileCards t') =
        mset (drawPileCards s) + mset (discardPileCards s)" by auto
  then obtain cs where
    A23: "hands t' = (hands s)[a := hands s ! a @ cs]"
       "mset cs + mset (drawPileCards t') + mset (discardPileCards t') =
        mset (drawPileCards s) + mset (discardPileCards s)" by blast
  from AP have A: "sameControl (s\<lparr> pendingUno := None \<rparr>) t'"
       "discardPileCards s \<noteq> [] \<longrightarrow>
          discardPileCards t' \<noteq> [] \<and> last (discardPileCards t') = last (discardPileCards s)"
       "\<forall>q w. pendingUno t' = Some (q, w) \<longrightarrow> q < length (hands t') \<and> length (hands t' ! q) = 1"
    by simp_all
  show ?thesis
  proof (rule inv_grow [OF I ne])
    show "players t = players s" "dealer t = dealer s" "direction t = direction s"
      "enforcedColor t = enforcedColor s" "ended t = ended s" "winnerIndex t = winnerIndex s"
      using A(1) t by (simp_all add: sameControl_def)
    show "\<exists>c. currentPlayerIndex t = Some c \<and> c < length (players s)"
      using A(1) t inv(14) [OF ne] by (simp add: sameControl_def)
    show "hands t = (hands s)[a := hands s ! a @ cs]" using A23(1) t by simp
    show "mset cs + mset (drawPileCards t) + mset (discardPileCards t) =
             mset (drawPileCards s) + mset (discardPileCards s)" using A23(2) t by simp
    show "discardPileCards t \<noteq> []" "last (discardPileCards t) = last (discardPileCards s)"
      using A(2) inv(6) t by simp_all
    show "\<And>p w. pendingUno t = Some (p, w) \<Longrightarrow> p < length (hands t) \<and> length (hands t ! p) = 1"
      using A(3) t by simp
  qed
qed

lemma perform_inv:
  assumes "roundInv L s" and "isShuffle sh" and "perform L sh op s = (None, t)"
  shows "roundInv L t"
proof (cases op)
  case (Play i col)
  with assms(3) obtain cd where "play L sh i col s = (Inr cd, t)"
    by (auto simp: perform_def outcome_def split: prod.splits sum.splits)
  from play_inv [OF assms(1,2) this] show ?thesis .
next
  case Draw
  with assms(3) obtain cd where "draw L sh s = (Inr cd, t)"
    by (auto simp: perform_def outcome_def split: prod.splits sum.splits)
  from draw_inv [OF assms(1,2) this] show ?thesis .
next
  case (SayUno p)
  with assms(3) obtain u where "sayUno p s = (Inr u, t)"
    by (auto simp: perform_def outcome_def split: prod.splits sum.splits)
  from sayUno_inv [OF assms(1) this] show ?thesis .
next
  case (CatchUnoFailure b a)
  with assms(3) obtain r where "catchUnoFailure sh b a s = (Inr r, t)"
    by (auto simp: perform_def outcome_def split: prod.splits sum.splits)
  from catchUnoFailure_inv [OF assms(1,2) this] show ?thesis .
qed

lemma dealRow_props:
  assumes "dealRow ps hs cs = Inr (hs', cs')"
  shows "length hs' = length hs \<and>
         (list_all (list_all P) hs \<and> list_all P cs \<longrightarrow>
            list_all (list_all P) hs' \<and> list_all P cs') \<and>
         (\<forall>q<length hs. q \<in> set ps \<or> hs ! q \<noteq> [] \<longrightarrow> hs' ! q \<noteq> [])"
  using assms
proof (induction ps arbitrary: hs cs)
  case Nil
  then show ?case by simp
next
  case (Cons p ps)
  from Cons.prems obtain c rest where cs: "cs = c # rest"
    by (cases cs) auto
  let ?hs1 = "hs[p := hs ! p @ [c]]"
  from Cons.prems cs have r: "dealRow ps ?hs1 rest = Inr (hs', cs')" by simp
  note IH = Cons.IH [OF r]
  have len: "length hs' = length hs" using IH by simp
  have ok: "list_all (list_all P) hs' \<and> list_all P cs'"
    if "list_all (list_all P) hs \<and> list_all P cs"
  proof -
    from that cs have "list_all P [c]" "list_all P rest" by simp_all
    with that list_all_hands_grow [of P hs "[c]" p] IH show ?thesis by simp
  qed
  have ne: "hs' ! q \<noteq> []" if q: "q < length hs" "q \<in> set (p # ps) \<or> hs ! q \<noteq> []" for q
  proof -
    have "q \<in> set ps \<or> ?hs1 ! q \<noteq> []"
      using q by (cases "q = p") (auto simp: nth_list_update)
    with IH q(1) show ?thesis by auto
  qed
  from len ok ne show ?case by blast
qed

lemma dealRows_props:
  assumes "dealRows i n hs cs = Inr (hs', cs')" and "length hs = n"
  shows "length hs' = n \<and>
         (list_all (list_all P) hs \<and> list_all P cs \<longrightarrow>
            list_all (list_all P) hs' \<and> list_all P cs') \<and>
         (\<forall>q<n. 0 < i \<or> hs ! q \<noteq> [] \<longrightarrow> hs' ! q \<noteq> [])"
  using assms
proof (induction i arbitrary: hs cs)
  case 0
  then show ?case by simp
next
  case (Suc i)
  from Suc.prems(1) obtain hs1 cs1 where
    row: "dealRow [0..<n] hs cs = Inr (hs1, cs1)" and
    rest: "dealRows i n hs1 cs1 = Inr (hs', cs')"
    by (auto split: sum.splits)
  note R = dealRow_props [OF row, of P]
  from R Suc.prems(2) have l1: "length hs1 = n" by simp
  note IH = Suc.IH [OF rest l1]
  from R Suc.prems(2) have ne1: "\<forall>q<n. hs1 ! q \<noteq> []" by simp
  from IH R ne1 show ?case by simp
qed

lemma drawIntoHand_props:
  assumes "drawIntoHand hand source k = Inr (hand', source')"
  shows "(hand \<noteq> [] \<longrightarrow> hand' \<noteq> []) \<and>
         (list_all P hand \<and> list_all P source \<longrightarrow> list_all P hand' \<and> list_all P source')"
  using assms
proof (induction k arbitrary: hand source)
  case 0
  then show ?case by simp
next
  case (Suc k)
  from Suc.prems obtain c rest where s: "source = c # rest" by (cases source) auto
  with Suc.prems have "drawIntoHand (hand @ [c]) rest k = Inr (hand', source')" by simp
  from Suc.IH [OF this] s show ?case by simp
qed

lemma openingEffect_props:
  assumes E: "openingEffect n d hs cs fd = Inr st" and n: "0 < n" and len: "length hs = n"
    and ne: "\<forall>q<n. hs ! q \<noteq> []"
  shows "length (init_hands st) = n \<and> (\<forall>q<n. init_hands st ! q \<noteq> []) \<and>
         init_discardPile st = [fd] \<and> init_enforcedColor st = None \<and>
         (init_direction st = 1 \<or> init_direction st = - 1) \<and>
         (d < n \<longrightarrow> init_currentPlayer st < n) \<and>
         (list_all (list_all P) hs \<and> list_all P cs \<longrightarrow>
            list_all (list_all P) (init_hands st) \<and> list_all P (init_drawPile st))"
proof (cases fd)
  case (DRAW c)
  let ?v = "nat (mod_js (int d + 1) (int n))"
  have v: "?v < n" by (rule mod_js_index [OF n])
  from E DRAW obtain hand rest where
    dr: "drawIntoHand (hs ! ?v) cs 2 = Inr (hand, rest)" and
    st: "st = \<lparr> init_hands = hs[?v := hand], init_drawPile = rest, init_discardPile = [fd],
                 init_currentPlayer = nat (mod_js (int d + 2) (int n)),
                 init_direction = 1, init_enforcedColor = None \<rparr>"
    by (auto simp: openingEffect_def Let_def split: sum.splits)
  note D = drawIntoHand_props [OF dr, of P]
  from D ne v have h: "hand \<noteq> []" by simp
  have ne': "\<forall>q<n. (hs[?v := hand]) ! q \<noteq> []"
  proof (intro allI impI)
    fix q assume "q < n"
    with ne h len show "(hs[?v := hand]) ! q \<noteq> []"
      by (cases "q = ?v") (simp_all add: nth_list_update)
  qed
  have ok: "list_all (list_all P) (hs[?v := hand]) \<and> list_all P rest"
    if a: "list_all (list_all P) hs \<and> list_all P cs"
  proof -
    from a v len have "list_all P (hs ! ?v)" by (simp add: list_all_length)
    with D a have r: "list_all P hand" "list_all P rest" by simp_all
    have "set (hs[?v := hand]) \<subseteq> insert hand (set hs)" by (rule set_update_subset_insert)
    with a r show ?thesis unfolding list_all_iff by blast
  qed
  from st len ne' ok mod_js_index [OF n] show ?thesis by simp
next
  case (NUMBERED c k)
  with E len ne mod_js_index [OF n] show ?thesis
    by (auto simp: openingEffect_def Let_def)
next
  case (SKIP c)
  with E len ne mod_js_index [OF n] show ?thesis
    by (auto simp: openingEffect_def Let_def)
next
  case (REVERSE c)
  with E len ne mod_js_index [OF n] show ?thesis
    by (auto simp: openingEffect_def Let_def split: if_splits)
next
  case WILD
  with E len ne mod_js_index [OF n] show ?thesis
    by (auto simp: openingEffect_def Let_def)
next
  case WILD_DRAW
  with E len ne mod_js_index [OF n] show ?thesis
    by (auto simp: openingEffect_def Let_def)
qed

lemma buildInitialState_props:
  assumes B: "buildInitialState ps d k decks = Some (Inr st)" and n: "0 < length ps"
    and k: "0 < k"
  shows "length (init_hands st) = length ps \<and> (\<forall>q<length ps. init_hands st ! q \<noteq> []) \<and>
         (\<exists>fd. init_discardPile st = [fd] \<and> \<not> isWild fd) \<and> init_enforcedColor st = None \<and>
         (init_direction st = 1 \<or> init_direction st = - 1) \<and>
         (d < length ps \<longrightarrow> init_currentPlayer st < length ps) \<and>
         (list_all (list_all P) decks \<longrightarrow>
            list_all (list_all P) (init_hands st) \<and> list_all P (init_drawPile st) \<and>
            list_all P (init_discardPile st))"
  using B
proof (induction decks)
  case Nil
  then show ?case by simp
next
  case (Cons cards later)
  from Cons.prems obtain hs cs where
    dl: "dealRows k (length ps) (map (\<lambda>_. []) ps) cards = Inr (hs, cs)"
    by (auto split: sum.splits)
  from Cons.prems dl obtain fd rest where cs: "cs = fd # rest"
    by (cases cs) auto
  note D = dealRows_props [OF dl, of P]
  have h: "length hs = length ps" "\<forall>q<length ps. hs ! q \<noteq> []"
    using D k by simp_all
  show ?case
  proof (cases "isWild fd")
    case True
    with Cons.prems dl cs have "buildInitialState ps d k later = Some (Inr st)" by simp
    from Cons.IH [OF this] show ?thesis by simp
  next
    case False
    with Cons.prems dl cs have E: "openingEffect (length ps) d hs rest fd = Inr st" by simp
    note O = openingEffect_props [OF E n h, of P]
    have ok: "list_all (list_all P) (init_hands st) \<and> list_all P (init_drawPile st) \<and>
            list_all P (init_discardPile st)" if a: "list_all (list_all P) (cards # later)"
    proof -
      have "list_all (list_all P) (map (\<lambda>_. []) ps)" by (simp add: list_all_iff)
      with a D cs have "list_all (list_all P) hs" "list_all P rest" "P fd" by simp_all
      with O show ?thesis by simp
    qed
    from O False ok show ?thesis by simp
  qed
qed

lemma createRound_inv:
  assumes C: "createRound config decks = Some (Inr s)"
    and ok: "list_all (list_all (cardOk L)) decks"
  shows "roundInv L s"
proof -
  let ?ps = "c_players config"
  from C have v: "2 \<le> length ?ps" "length ?ps \<le> 10"
    by (auto simp: createRound_def validatePlayers_def split: option.splits if_splits)
  define k where "k = (case c_cardsPerPlayer config of None \<Rightarrow> 7 | Some j \<Rightarrow> j)"
  from C v have k: "0 < k" and
    ex: "\<exists>d st. ensureIndex (c_dealer config) (length ?ps) ''dealer'' = Inr d \<and>
            buildInitialState ?ps d (nat k) decks = Some (Inr st) \<and>
            newRoundImpl ?ps d (init_hands st) (init_drawPile st) (init_discardPile st)
              (init_direction st) (Some (init_currentPlayer st)) (init_enforcedColor st) = Inr s"
    unfolding k_def
    by (auto simp: createRound_def validatePlayers_def Let_def
        split: option.splits if_splits sum.splits)
  from ex obtain d st where
    d: "ensureIndex (c_dealer config) (length ?ps) ''dealer'' = Inr d" and
    b: "buildInitialState ?ps d (nat k) decks = Some (Inr st)" and
    s: "newRoundImpl ?ps d (init_hands st) (init_drawPile st) (init_discardPile st)
          (init_direction st) (Some (init_currentPlayer st)) (init_enforcedColor st) = Inr s"
    by blast
  from d have dn: "d < length ?ps"
    by (cases "c_dealer config") (auto simp: ensureIndex_def split: if_splits)
  from v have n: "0 < length ?ps" by auto
  from k have k': "0 < nat k" by simp
  note B = buildInitialState_props [OF b n k', of "cardOk L"]
  from B obtain fd where fd: "init_discardPile st = [fd]" "\<not> isWild fd" by blast
  from B have w: "winners (init_hands st) = []" by (simp add: winners_Nil_iff)
  from s w fd have s': "s = \<lparr> players = ?ps, dealer = d, unoDeclared = (\<lambda>_. False),
                   hands = init_hands st, drawPileCards = init_drawPile st,
                   discardPileCards = [fd], direction = init_direction st,
                   currentPlayerIndex = Some (init_currentPlayer st),
                   enforcedColor = init_enforcedColor st, pendingUno = None,
                   ended = False, winnerIndex = None, cachedScore = None \<rparr>"
    by (simp add: newRoundImpl_def Let_def)
  show ?thesis
    unfolding roundInv_def using s' v dn B fd w ok by simp
qed

lemma reachable_inv: "reachable L s \<Longrightarrow> roundInv L s"
proof (induction rule: reachable.induct)
  case (dealt config decks s)
  then show ?case by (rule createRound_inv)
next
  case (created m s)
  then show ?case by (rule created_inv)
next
  case (performed s sh op s')
  then show ?case by (blast intro: perform_inv)
qed

section \<open>Evaluating the examples\<close>

lemmas eval_defs = exLib_def specLib_def exColors_def specCanPlay_def specCardOk_def
  play_def draw_def catchUnoFailure_def sayUno_def canPlay_def
  andThen_apply action_simps Let_def
  ensureActiveRound_def ensureCurrentPlayer_def ensureCardIndex_def ensurePlayerIndex_def
  ensureIndex_def handOf_def markActionBy_def clearPendingOf_def updateUnoStateFor_def
  refillDrawPile_def takeFromDrawPile_def applyPenalty_def advance_def nextIndexFromCurrent_def
  finishRound_def computeScore_def setEnforcedColor_def cardEffect_def topCard_def
  ensureColorValue_def playerCount_def mod_js_def jsRem_def

lemmas memento_defs = createRoundFromMemento_def orElse_def validatePlayers_def toDirection_def
  cloneHands_def cloneCardsWithValidation_def winners_def newRoundImpl_def ensureIndex_def
  ensureColorValue_def exLib_def specLib_def exColors_def specCardOk_def

lemma ex_created: "createRoundFromMemento exLib exMemento = Inr exRound"
  by (simp add: exMemento_def exRound_def memento_defs)

lemma ex_play: "play exLib id 1 None exRound = (Inr (NUMBERED ''RED'' 5), exRoundPlayed)"
  by (simp add: exRound_def exRoundPlayed_def eval_defs)

lemma ended_created: "createRoundFromMemento exLib endedMemento = Inr endedRound"
  by (simp add: endedMemento_def endedRound_def memento_defs)


lemma ex_perform: "perform exLib id (Play 1 None) exRound = (None, exRoundPlayed)"
  by (simp add: perform_def outcome_def ex_play)

lemma isShuffle_id: "isShuffle id"
  by (simp add: isShuffle_def)

lemma ex_reachable: "reachable exLib exRound"
  by (rule reachable.created [OF ex_created])

lemma exPlayed_reachable: "reachable exLib exRoundPlayed"
  by (rule reachable.performed [OF ex_reachable isShuffle_id ex_perform])

lemma ended_reachable: "reachable exLib endedRound"
  by (rule reachable.created [OF ended_created])



lemma action_result_cases:
  obtains (fails) e t where "m s = (Inl e, t)" | (returns) a t where "m s = (Inr a, t)"
  by (cases "m s"; cases "fst (m s)"; auto)

lemma updateUnoStateFor_succeeds:
  assumes "p < length (hands s)"
    and "\<And>q w. pendingUno s = Some (q, w) \<Longrightarrow> q < length (hands s)"
  shows "\<exists>t. updateUnoStateFor p s = (Inr (), t)"
proof (cases rule: action_result_cases [of "updateUnoStateFor p" s])
  case (fails e t)
  from updateUnoStateFor_Inl [OF fails] assms show ?thesis by auto
next
  case (returns a t)
  then show ?thesis by auto
qed

lemma draw_apply:
  assumes "\<not> ended s" and "currentPlayerIndex s = Some cur"
  shows "draw L sh s =
     (case takeFromDrawPile sh (snd (markActionBy cur s)) of
        (Inl e, t) \<Rightarrow> (Inl e, t)
      | (Inr cd, s2) \<Rightarrow>
          if cur < length (hands s2)
          then (case updateUnoStateFor cur (s2\<lparr> hands := (hands s2)[cur := hands s2 ! cur @ [cd]] \<rparr>) of
                  (Inl e, t) \<Rightarrow> (Inl e, t)
                | (Inr u, s4) \<Rightarrow>
                    if \<not> canPlayCard L cd (topCard s4) (enforcedColor s4)
                    then (Inr cd, snd (advance 1 s4)) else (Inr cd, s4))
          else (Inl TypeError, s2))"
  using assms
  by (simp add: draw_def andThen_apply ensureActiveRound_def ensureCurrentPlayer_def
      markActionBy_apply handOf_def action_simps advance_def
      split: prod.splits sum.splits)

lemma draw_succeeds:
  assumes I: "roundInv L s" and ne: "\<not> ended s"
    and T: "takeFromDrawPile sh (snd (markActionBy (the (currentPlayerIndex s)) s)) = (Inr cd, s2)"
  shows "\<exists>t. draw L sh s = (Inr cd, t)"
proof -
  note inv = roundInvD [OF I]
  from inv(14) [OF ne] obtain cur where cur: "currentPlayerIndex s = Some cur"
    "cur < length (players s)" by blast
  let ?s1 = "snd (markActionBy cur s)"
  have s1: "hands ?s1 = hands s"
    "\<And>q w. pendingUno ?s1 = Some (q, w) \<Longrightarrow> q < length (hands s)"
    using inv(12) by (auto simp: markActionBy_apply split: option.splits if_splits)
  from T cur have T': "takeFromDrawPile sh ?s1 = (Inr cd, s2)" by simp
  note TK = takeFromDrawPile_Inr [OF T']
  from TK s1 have h2: "hands s2 = hands s" "pendingUno s2 = pendingUno ?s1" by simp_all
  have c2: "cur < length (hands s2)" using h2 cur inv(4) by simp
  let ?s3 = "s2\<lparr> hands := (hands s2)[cur := hands s2 ! cur @ [cd]] \<rparr>"
  have "\<exists>t. updateUnoStateFor cur ?s3 = (Inr (), t)"
  proof (rule updateUnoStateFor_succeeds)
    show "cur < length (hands ?s3)" using c2 by simp
    show "\<And>q w. pendingUno ?s3 = Some (q, w) \<Longrightarrow> q < length (hands ?s3)"
      using s1(2) h2 by simp
  qed
  then obtain s4 where U: "updateUnoStateFor cur ?s3 = (Inr (), s4)" by blast
  show ?thesis
    unfolding draw_apply [OF ne cur(1)] using T' c2 U by simp
qed

lemma const_upd_same: "(\<lambda>_. c)(x := c) = (\<lambda>_. c)"
  by auto


lemma refill_created: "createRoundFromMemento exLib refillMemento = Inr refillRound"
  by (simp add: refillMemento_def refillRound_def memento_defs)

lemma exhausted_created: "createRoundFromMemento exLib exhaustedMemento = Inr exhaustedRound"
  by (simp add: exhaustedMemento_def exhaustedRound_def refillMemento_def refillRound_def
      memento_defs)

lemma currentColor_reachable:
  assumes I: "roundInv L s" and cc: "checksColors L"
  shows "\<exists>c. currentColor s = Inr c \<and> c \<in> set (colors L) \<and>
             (if isWild (last (discardPileCards s)) then enforcedColor s = Some c
              else enforcedColor s = None \<and> colorOf (last (discardPileCards s)) = Some c)"
proof (cases "isWild (last (discardPileCards s))")
  case True
  note inv = roundInvD [OF I]
  from True inv(7) obtain c where c: "enforcedColor s = Some c" by auto
  with inv(8) True show ?thesis by (simp add: currentColor_def)
next
  case False
  note inv = roundInvD [OF I]
  from False inv(7) have e: "enforcedColor s = None" by simp
  from False obtain c where c: "colorOf (last (discardPileCards s)) = Some c"
    by (cases "last (discardPileCards s)") auto
  from inv(6,11) have "cardOk L (last (discardPileCards s))"
    by (simp add: list_all_iff)
  with cc c have "c \<in> set (colors L)" by (auto simp: checksColors_def)
  with False e c inv(6) show ?thesis by (simp add: currentColor_def topCard_def)
qed

lemma round_trip:
  assumes I: "roundInv L s" and cc: "checksColors L"
  shows "\<exists>m. toMemento s = Inr m \<and>
             createRoundFromMemento L m =
               Inr (s\<lparr> unoDeclared := (\<lambda>_. False), pendingUno := None, cachedScore := None \<rparr>)"
proof -
  note inv = roundInvD [OF I]
  from currentColor_reachable [OF I cc] obtain c where
    c: "currentColor s = Inr c" "c \<in> set (colors L)"
       "if isWild (last (discardPileCards s)) then enforcedColor s = Some c
        else enforcedColor s = None \<and> colorOf (last (discardPileCards s)) = Some c" by blast
  let ?m = "\<lparr> m_players = players s, m_hands = hands s, m_drawPile = drawPileCards s,
                m_discardPile = discardPileCards s, m_currentColor = c,
                m_currentDirection =
                  (if direction s = 1 then ''clockwise'' else ''counterclockwise''),
                m_dealer = JInt (int (dealer s)),
                m_playerInTurn =
                  (if ended s then None else map_option (\<lambda>i. JInt (int i)) (currentPlayerIndex s)) \<rparr>"
  have tm: "toMemento s = Inr ?m" using c(1) by (simp add: toMemento_def)
  have v: "validatePlayers (players s) = None" using inv(1,2) by (simp add: validatePlayers_def)
  have d: "ensureIndex (JInt (int (dealer s))) (length (players s)) ''dealer'' = Inr (dealer s)"
    using inv(3) by (simp add: ensureIndex_def)
  have dir: "toDirection (if direction s = 1 then ''clockwise'' else ''counterclockwise'') =
             Inr (direction s)"
    using inv(5) by (auto simp: toDirection_def)
  have col: "ensureColorValue L c = Inr c" using c(2) by (simp add: ensureColorValue_def)
  have cl: "cloneHands L (hands s) = Inr (hands s)"
    "cloneCardsWithValidation L (drawPileCards s) = Inr (drawPileCards s)"
    "cloneCardsWithValidation L (discardPileCards s) = Inr (discardPileCards s)"
    using inv(9,10,11) by (simp_all add: cloneHands_def cloneCardsWithValidation_def)
  have ec: "(if isWild (last (discardPileCards s)) then Inr (Some c)
            else if colorOf (last (discardPileCards s)) \<noteq> Some c then Inl CurrentColorMismatch
            else Inr None) = Inr (enforcedColor s)"
    using c(3) by (simp split: if_splits)
  show ?thesis
  proof (cases "ended s")
    case True
    from inv(13) [OF True] obtain w where w: "currentPlayerIndex s = None" "pendingUno s = None"
      "winnerIndex s = Some w" "winners (hands s) = [w]" by blast
    have "createRoundFromMemento L ?m =
            Inr \<lparr> players = players s, dealer = dealer s, unoDeclared = (\<lambda>_. False),
                  hands = hands s, drawPileCards = drawPileCards s,
                  discardPileCards = discardPileCards s, direction = direction s,
                  currentPlayerIndex = None, enforcedColor = enforcedColor s, pendingUno = None,
                  ended = True, winnerIndex = Some w, cachedScore = None \<rparr>"
      unfolding createRoundFromMemento_def
      by (simp add: orElse_def newRoundImpl_def v d dir col cl ec w(4) inv(4,6))
    also have "\<lparr> players = players s, dealer = dealer s, unoDeclared = (\<lambda>_. False),
                  hands = hands s, drawPileCards = drawPileCards s,
                  discardPileCards = discardPileCards s, direction = direction s,
                  currentPlayerIndex = None, enforcedColor = enforcedColor s, pendingUno = None,
                  ended = True, winnerIndex = Some w, cachedScore = None \<rparr> =
               s\<lparr> unoDeclared := (\<lambda>_. False), pendingUno := None, cachedScore := None \<rparr>"
      using True w by (intro round.equality) simp_all
    finally show ?thesis using tm by blast
  next
    case False
    from inv(14) [OF False] obtain cur where w: "winnerIndex s = None" "winners (hands s) = []"
      "currentPlayerIndex s = Some cur" "cur < length (players s)" by blast
    have pi: "ensureIndex (JInt (int cur)) (length (players s)) ''playerInTurn'' = Inr cur"
      using w(4) by (simp add: ensureIndex_def)
    have "createRoundFromMemento L ?m =
            Inr \<lparr> players = players s, dealer = dealer s, unoDeclared = (\<lambda>_. False),
                  hands = hands s, drawPileCards = drawPileCards s,
                  discardPileCards = discardPileCards s, direction = direction s,
                  currentPlayerIndex = Some cur, enforcedColor = enforcedColor s,
                  pendingUno = None, ended = False, winnerIndex = None, cachedScore = None \<rparr>"
      unfolding createRoundFromMemento_def
      by (simp add: orElse_def newRoundImpl_def v d dir col cl ec w(2,3) pi False inv(4,6))
    also have "\<lparr> players = players s, dealer = dealer s, unoDeclared = (\<lambda>_. False),
                  hands = hands s, drawPileCards = drawPileCards s,
                  discardPileCards = discardPileCards s, direction = direction s,
                  currentPlayerIndex = Some cur, enforcedColor = enforcedColor s,
                  pendingUno = None, ended = False, winnerIndex = None, cachedScore = None \<rparr> =
               s\<lparr> unoDeclared := (\<lambda>_. False), pendingUno := None, cachedScore := None \<rparr>"
      using False w by (intro round.equality) simp_all
    finally show ?thesis using tm by blast
  qed
qed

lemma checksColors_specLib: "checksColors (specLib cs)"
  by (auto simp: checksColors_def specLib_def specCardOk_def)

lemma takeFromDrawPile_available:
  assumes "isShuffle sh" and "0 < drawable s"
  shows "\<exists>c t. takeFromDrawPile sh s = (Inr c, t) \<and> drawable t = drawable s - 1"
proof (cases "drawPileCards s")
  case (Cons c rest)
  then have "takeFromDrawPile sh s = (Inr c, s\<lparr> drawPileCards := rest \<rparr>)"
    by (simp add: takeFromDrawPile_def andThen_apply)
  with Cons show ?thesis by (simp add: drawable_def)
next
  case Nil
  let ?d = "discardPileCards s"
  from Nil assms(2) have len: "1 < length ?d" by (simp add: drawable_def)
  have ms: "mset (sh (butlast ?d)) = mset (butlast ?d)" using assms(1) by (simp add: isShuffle_def)
  then have l: "length (sh (butlast ?d)) = length ?d - 1"
    by (metis length_butlast size_mset)
  with len obtain c rest where cr: "sh (butlast ?d) = c # rest"
    by (cases "sh (butlast ?d)") auto
  from Nil len cr have "takeFromDrawPile sh s =
      (Inr c, s\<lparr> drawPileCards := rest, discardPileCards := [last ?d] \<rparr>)"
    by (simp add: takeFromDrawPile_def refillDrawPile_def andThen_apply)
  moreover from l cr have "length rest = length ?d - 2" by simp
  ultimately show ?thesis using Nil by (simp add: drawable_def)
qed

lemma takeFromDrawPile_exhausted:
  assumes "drawable s = 0"
  shows "takeFromDrawPile sh s = (Inl CannotReplenish, s)"
  using assms by (simp add: drawable_def takeFromDrawPile_def refillDrawPile_def andThen_apply)

lemma drawCardsForPlayer_enough:
  assumes "isShuffle sh" and "p < length (hands s)" and "k \<le> drawable s"
  shows "\<exists>t. drawCardsForPlayer sh p k s = (Inr (), t)"
  using assms(2,3)
proof (induction k arbitrary: s)
  case 0
  then show ?case by (simp add: ret_def)
next
  case (Suc k)
  from Suc.prems(2) have "0 < drawable s" by simp
  from takeFromDrawPile_available [OF assms(1) this] obtain c t where
    t: "takeFromDrawPile sh s = (Inr c, t)" "drawable t = drawable s - 1" by blast
  from takeFromDrawPile_Inr [OF t(1)] have h: "hands t = hands s" by simp
  let ?t' = "t\<lparr> hands := (hands t)[p := hands t ! p @ [c]] \<rparr>"
  have "p < length (hands ?t')" using h Suc.prems(1) by simp
  moreover have "drawable ?t' = drawable t" by (simp add: drawable_def)
  then have "k \<le> drawable ?t'" using t(2) Suc.prems(2) by simp
  ultimately obtain u where "drawCardsForPlayer sh p k ?t' = (Inr (), u)"
    using Suc.IH by blast
  with t(1) Suc.prems(1) show ?case
    by (simp add: andThen_apply handOf_def modify_def)
qed

lemma drawCardsForPlayer_short:
  assumes "isShuffle sh" and "p < length (hands s)" and "drawable s < k"
  shows "\<exists>t. drawCardsForPlayer sh p k s = (Inl CannotReplenish, t)"
  using assms(2,3)
proof (induction k arbitrary: s)
  case 0
  then show ?case by simp
next
  case (Suc k)
  show ?case
  proof (cases "drawable s = 0")
    case True
    from takeFromDrawPile_exhausted [OF True] Suc.prems(1) show ?thesis
      by (simp add: andThen_apply handOf_def)
  next
    case False
    then have "0 < drawable s" by simp
    from takeFromDrawPile_available [OF assms(1) this] obtain c t where
      t: "takeFromDrawPile sh s = (Inr c, t)" "drawable t = drawable s - 1" by blast
    from takeFromDrawPile_Inr [OF t(1)] have h: "hands t = hands s" by simp
    let ?t' = "t\<lparr> hands := (hands t)[p := hands t ! p @ [c]] \<rparr>"
    have "p < length (hands ?t')" using h Suc.prems(1) by simp
    moreover have "drawable ?t' = drawable t" by (simp add: drawable_def)
    then have "drawable ?t' < k" using t(2) Suc.prems(2) False by simp
    ultimately obtain u where "drawCardsForPlayer sh p k ?t' = (Inl CannotReplenish, u)"
      using Suc.IH by blast
    with t(1) Suc.prems(1) show ?thesis
      by (simp add: andThen_apply handOf_def modify_def)
  qed
qed

lemma penalty_clears_window:
  assumes "applyPenalty sh p k s = (Inr (), t)" and "pendingUno s = None"
    and "length (hands s ! p) + k \<noteq> 1"
  shows "pendingUno t = None"
proof -
  from assms(1) obtain s1 where
    d: "drawCardsForPlayer sh p k s = (Inr (), s1)" and
    u: "updateUnoStateFor p s1 = (Inr (), t)"
    by (auto simp: applyPenalty_def andThen_Inr_iff)
  from drawCardsForPlayer_Inr [OF d] obtain cs where
    cs: "pendingUno s1 = pendingUno s" "length cs = k" "hands s1 = (hands s)[p := hands s ! p @ cs]"
    by blast
  from updateUnoStateFor_Inr [OF u] have p: "p < length (hands s1)" by simp
  with cs have "length (hands s1 ! p) = length (hands s ! p) + k" by simp
  with assms(3) have n1: "length (hands s1 ! p) \<noteq> 1" by simp
  from u p n1 cs(1) assms(2) show ?thesis
    by (auto simp: updateUnoStateFor_def andThen_Inr_iff handOf_Inr_iff action_simps
        clearPendingOf_eq split: option.splits if_splits)
qed

lemma catchUnoFailure_success:
  assumes H: "length (hands s) = playerCount s" and sh: "isShuffle sh"
    and i: "b < playerCount s" "a < playerCount s"
    and c: "specCatchable s a" and d: "4 \<le> drawable s"
  shows "\<exists>t cs. catchUnoFailure sh (JInt (int b)) (JInt (int a)) s = (Inr True, t) \<and>
                length cs = 4 \<and> hands t = (hands s)[a := hands s ! a @ cs] \<and>
                length (hands t ! a) = 5 \<and> pendingUno t = None"
proof -
  let ?s0 = "s\<lparr> pendingUno := None \<rparr>"
  from i(2) H have a: "a < length (hands s)" by simp
  have "4 \<le> drawable ?s0" using d by (simp add: drawable_def)
  with drawCardsForPlayer_enough [OF sh, of a ?s0 4] a obtain s1 where
    s1: "drawCardsForPlayer sh a 4 ?s0 = (Inr (), s1)" by auto
  from drawCardsForPlayer_Inr [OF s1] obtain cs where
    cs: "pendingUno s1 = None" "length cs = 4" "hands s1 = (hands s)[a := hands s ! a @ cs]"
    by auto
  have "\<exists>t. updateUnoStateFor a s1 = (Inr (), t)"
    by (rule updateUnoStateFor_succeeds) (use cs a in simp_all)
  then obtain t' where t': "updateUnoStateFor a s1 = (Inr (), t')" by blast
  with s1 have ap: "applyPenalty sh a 4 ?s0 = (Inr (), t')"
    by (simp add: applyPenalty_def andThen_apply)
  from c have one: "length (hands s ! a) = 1" by (simp add: specCatchable_def)
  from penalty_clears_window [OF ap] one have pu: "pendingUno t' = None" by simp
  from updateUnoStateFor_Inr [OF t'] cs have h: "hands t' = (hands s)[a := hands s ! a @ cs]"
    by simp
  let ?t = "t'\<lparr> unoDeclared := (unoDeclared t')(a := False) \<rparr>"
  have "catchUnoFailure sh (JInt (int b)) (JInt (int a)) s = (Inr True, ?t)"
    unfolding catchUnoFailure_catchable [OF i a c] using ap by simp
  moreover have "length (hands ?t ! a) = 5" using h a one cs(2) by simp
  ultimately show ?thesis using cs(2) h pu by auto
qed

lemma catchUnoFailure_exhausted:
  assumes H: "length (hands s) = playerCount s" and sh: "isShuffle sh"
    and i: "b < playerCount s" "a < playerCount s"
    and c: "specCatchable s a" and d: "drawable s < 4"
  shows "\<exists>t. catchUnoFailure sh (JInt (int b)) (JInt (int a)) s = (Inl CannotReplenish, t)"
proof -
  let ?s0 = "s\<lparr> pendingUno := None \<rparr>"
  from i(2) H have a: "a < length (hands s)" by simp
  have "drawable ?s0 < 4" using d by (simp add: drawable_def)
  with drawCardsForPlayer_short [OF sh, of a ?s0 4] a obtain s1 where
    s1: "drawCardsForPlayer sh a 4 ?s0 = (Inl CannotReplenish, s1)" by auto
  then have "applyPenalty sh a 4 ?s0 = (Inl CannotReplenish, s1)"
    by (simp add: applyPenalty_def andThen_apply)
  then show ?thesis unfolding catchUnoFailure_catchable [OF i a c] by simp
qed

lemma rich_created: "createRoundFromMemento exLib richMemento = Inr richRound"
  by (simp add: richMemento_def richRound_def exMemento_def exRound_def memento_defs)

lemma rich_play: "play exLib id 1 None richRound = (Inr (NUMBERED ''RED'' 5), richRoundPlayed)"
  by (simp add: richRound_def richRoundPlayed_def exRound_def exRoundPlayed_def eval_defs)

lemma richPlayed_reachable: "reachable exLib richRoundPlayed"
proof -
  have "perform exLib id (Play 1 None) richRound = (None, richRoundPlayed)"
    by (simp add: perform_def outcome_def rich_play)
  from reachable.performed [OF reachable.created [OF rich_created] isShuffle_id this]
  show ?thesis .
qed

lemma ex_catch_exhausted:
  "catchUnoFailure id (JInt 1) (JInt 0) exRoundPlayed =
     (Inl CannotReplenish,
      exRoundPlayed\<lparr> hands := [[WILD, SKIP ''BLUE'', NUMBERED ''GREEN'' 1, NUMBERED ''RED'' 3],
                                 [NUMBERED ''BLUE'' 7, SKIP ''GREEN'']],
                      drawPileCards := [], discardPileCards := [NUMBERED ''RED'' 5],
                      pendingUno := None \<rparr>)"
  by (simp add: exRound_def exRoundPlayed_def eval_defs eval_nat_numeral)

lemma ex_dealt: "createRound exConfig exDecks = Some (Inr exDealt)"
  by (simp add: createRound_def exConfig_def exDecks_def exDealt_def validatePlayers_def
      ensureIndex_def eval_nat_numeral openingEffect_def newRoundImpl_def winners_def
      mod_js_def jsRem_def Let_def)

lemma exDealt_reachable: "reachable exLib exDealt"
  by (rule reachable.dealt [OF ex_dealt])
     (simp add: exDecks_def exLib_def specLib_def specCardOk_def exColors_def)

section \<open>Turn order after a play\<close>

text \<open>
  Claim C4. A successful play that does not end the round moves the turn to
  (old current + steps * direction) mod playerCount, a value in [0, playerCount), where the
  direction is the one in force after the card's effect (flipped by REVERSE, unchanged
  otherwise) and steps is 1 for NUMBERED and WILD, 2 for SKIP, DRAW and WILD DRAW, and for
  REVERSE 2 in a two-player round and 1 otherwise.
\<close>

theorem play_turn_advance:
  assumes "play L sh i col s = (Inr cd, s')" and "\<not> ended s'" and "0 < playerCount s"
  shows "\<exists>cur. currentPlayerIndex s = Some cur \<and> cd = hands s ! cur ! nat i \<and>
           direction s' = specDirection cd (direction s) \<and>
           currentPlayerIndex s' =
             Some (nat ((int cur + specSteps cd (playerCount s) * direction s')
                        mod int (playerCount s))) \<and>
           (\<forall>k. currentPlayerIndex s' = Some k \<longrightarrow> k < playerCount s)"
proof -
  from play_control [OF assms(1)] assms(2) obtain cur where
    c: "currentPlayerIndex s = Some cur" "cd = hands s ! cur ! nat i"
       "direction s' = specDirection cd (direction s)"
       "currentPlayerIndex s' =
          Some (nat (mod_js (int cur + specSteps cd (playerCount s) * direction s')
                       (int (playerCount s))))"
    by auto
  let ?v = "int cur + specSteps cd (playerCount s) * direction s'"
  from assms(3) have m: "mod_js ?v (int (playerCount s)) = ?v mod int (playerCount s)"
    by (simp add: mod_js_eq)
  have "nat (?v mod int (playerCount s)) < playerCount s"
    using assms(3) by (simp add: nat_less_iff)
  with c m show ?thesis by simp
qed

theorem play_turn_advance_witness:
  "play exLib id 1 None exRound = (Inr (NUMBERED ''RED'' 5), exRoundPlayed) \<and>
   \<not> ended exRoundPlayed \<and> 0 < playerCount exRound \<and>
   (\<exists>cur. currentPlayerIndex exRound = Some cur \<and>
      NUMBERED ''RED'' 5 = hands exRound ! cur ! nat 1 \<and>
      direction exRoundPlayed = specDirection (NUMBERED ''RED'' 5) (direction exRound) \<and>
      currentPlayerIndex exRoundPlayed =
        Some (nat ((int cur + specSteps (NUMBERED ''RED'' 5) (playerCount exRound) *
                      direction exRoundPlayed) mod int (playerCount exRound))) \<and>
      (\<forall>k. currentPlayerIndex exRoundPlayed = Some k \<longrightarrow> k < playerCount exRound))"
proof -
  have h1: "play exLib id 1 None exRound = (Inr (NUMBERED ''RED'' 5), exRoundPlayed)"
    by (rule ex_play)
  have h2: "\<not> ended exRoundPlayed"
    by (simp add: exRoundPlayed_def exRound_def)
  have h3: "0 < playerCount exRound"
    by (simp add: playerCount_def exRound_def)
  from play_turn_advance [OF h1 h2 h3] h1 h2 h3 show ?thesis by blast
qed

section \<open>Snapshots of an ended round\<close>

text \<open>
  Claim C8, as stated: a memento in which exactly one hand is empty but a playerInTurn is
  present is rejected. It is accepted: \<open>endedMemento\<close> has one empty hand, names player 1
  as the player in turn, and yields the ended round \<open>endedRound\<close>.
\<close>

theorem createRoundFromMemento_accepts_extra_playerInTurn:
  "length (winners (m_hands endedMemento)) = 1 \<and>
   m_playerInTurn endedMemento = Some (JInt 1) \<and>
   createRoundFromMemento exLib endedMemento = Inr endedRound"
  using ended_created by (simp add: endedMemento_def winners_def)

text \<open>
  Claim C8, amended. For a memento in which exactly one hand is empty, the playerInTurn
  field is ignored: construction gives the same result as for the memento without it, and
  whenever it succeeds the round is ended, has no current player and has the owner of the
  empty hand as its winner.
\<close>

theorem createRoundFromMemento_ignores_playerInTurn:
  assumes "length (winners (m_hands m)) = 1"
  shows "createRoundFromMemento L m = createRoundFromMemento L (m\<lparr> m_playerInTurn := None \<rparr>) \<and>
         (\<forall>s. createRoundFromMemento L m = Inr s \<longrightarrow>
               ended s \<and> currentPlayerIndex s = None \<and>
               winnerIndex s = Some (winners (m_hands m) ! 0))"
  using assms
  by (auto simp: createRoundFromMemento_def orElse_def cloneHands_def cloneCardsWithValidation_def
        newRoundImpl_def Let_def split: sum.splits option.splits if_splits)

theorem createRoundFromMemento_ignores_playerInTurn_witness:
  "length (winners (m_hands endedMemento)) = 1 \<and>
   createRoundFromMemento exLib endedMemento =
     createRoundFromMemento exLib (endedMemento\<lparr> m_playerInTurn := None \<rparr>) \<and>
   createRoundFromMemento exLib endedMemento = Inr endedRound \<and>
   ended endedRound \<and> currentPlayerIndex endedRound = None \<and>
   winnerIndex endedRound = Some (winners (m_hands endedMemento) ! 0)"
proof -
  have h: "length (winners (m_hands endedMemento)) = 1"
    by (simp add: endedMemento_def winners_def)
  from createRoundFromMemento_ignores_playerInTurn [OF h, of exLib] ended_created h
  show ?thesis by simp
qed

section \<open>Invariants after every operation\<close>

text \<open>
  As long as no call has thrown and the piles have not been changed through a view, the
  invariants hold: after every public operation that returns on a round built by createRound
  or createRoundFromMemento and carried forward by operations that returned, the discard pile
  is non-empty, at most one player has an empty hand, and the enforced colour is defined if
  the top discard card is a wild variant and undefined otherwise, the effective colour then
  being the top card's own colour.
\<close>

lemma invariants_while_nothing_threw:
  assumes "reachable L s" and "isShuffle sh" and "perform L sh op s = (None, s')"
  shows "discardPileCards s' \<noteq> [] \<and>
         (\<forall>i j. i < length (hands s') \<and> j < length (hands s') \<and>
                hands s' ! i = [] \<and> hands s' ! j = [] \<longrightarrow> i = j) \<and>
         (isWild (last (discardPileCards s')) \<longrightarrow> enforcedColor s' \<noteq> None) \<and>
         (\<not> isWild (last (discardPileCards s')) \<longrightarrow>
            enforcedColor s' = None \<and>
            (\<exists>c. colorOf (last (discardPileCards s')) = Some c \<and> currentColor s' = Inr c))"
proof -
  from assms have I: "roundInv L s'" by (blast intro: perform_inv reachable_inv)
  note inv = roundInvD [OF I]
  have one: "i = j" if "i < length (hands s')" "j < length (hands s')"
    "hands s' ! i = []" "hands s' ! j = []" for i j
  proof (cases "ended s'")
    case True
    from inv(13) [OF True] obtain w where "winners (hands s') = [w]" by blast
    with that show ?thesis unfolding winners_single_iff by metis
  next
    case False
    from inv(14) [OF False] that show ?thesis by (simp add: winners_Nil_iff)
  qed
  have col: "\<exists>c. colorOf (last (discardPileCards s')) = Some c \<and> currentColor s' = Inr c"
    if "\<not> isWild (last (discardPileCards s'))"
  proof -
    from that obtain c where "colorOf (last (discardPileCards s')) = Some c"
      by (cases "last (discardPileCards s')") auto
    with that inv(6,7) show ?thesis by (simp add: currentColor_def topCard_def)
  qed
  from inv(6,7) one col show ?thesis by blast
qed

lemma invariants_while_nothing_threw_example:
  "reachable exLib exRound \<and> isShuffle (id :: string card list \<Rightarrow> string card list) \<and>
   perform exLib id (Play 1 None) exRound = (None, exRoundPlayed) \<and>
   discardPileCards exRoundPlayed \<noteq> [] \<and>
   hands exRoundPlayed ! 0 \<noteq> [] \<and> hands exRoundPlayed ! 1 \<noteq> [] \<and>
   \<not> isWild (last (discardPileCards exRoundPlayed)) \<and>
   enforcedColor exRoundPlayed = None \<and>
   (\<exists>c. colorOf (last (discardPileCards exRoundPlayed)) = Some c \<and>
        currentColor exRoundPlayed = Inr c)"
proof -
  have w: "\<not> isWild (last (discardPileCards exRoundPlayed))"
    "hands exRoundPlayed ! 0 \<noteq> []" "hands exRoundPlayed ! 1 \<noteq> []"
    by (simp_all add: exRoundPlayed_def exRound_def)
  from invariants_while_nothing_threw [OF ex_reachable isShuffle_id ex_perform] w
    ex_reachable isShuffle_id ex_perform show ?thesis by blast
qed

text \<open>
  Claim C2. After every successful public operation (play, draw, sayUno, catchUnoFailure) on
  any reachable round, the discard pile is non-empty, at most one player has an empty hand,
  and the enforced colour is defined if the top discard card is a wild variant and undefined
  otherwise. The code does not keep this on the rounds that a throwing play leaves behind: in
  the round \<open>exRound\<close>, play at index 0 (a wild card) without a colour throws after the card
  has reached the discard pile, leaving \<open>exRoundThrown\<close>; sayUno(0) and draw() then both
  return, and after either of them the top discard card is the wild card while no colour is
  enforced, the round has no effective colour and toMemento throws. The discard-pile view is
  a second way in: after deal() on it, sayUno(0) returns and the discard pile is empty.
\<close>

theorem invariants_broken_after_throwing_play:
  "reachable exLib exRound \<and>
   play exLib id 0 None exRound = (Inl ColorMustBeSpecified, exRoundThrown) \<and>
   perform exLib id (SayUno (JInt 0)) exRoundThrown =
     (None, exRoundThrown\<lparr> unoDeclared := (\<lambda>_. False)(0 := True) \<rparr>) \<and>
   isWild (last (discardPileCards (snd (perform exLib id (SayUno (JInt 0)) exRoundThrown)))) \<and>
   enforcedColor (snd (perform exLib id (SayUno (JInt 0)) exRoundThrown)) = None \<and>
   currentColor (snd (perform exLib id (SayUno (JInt 0)) exRoundThrown)) =
     Inl CurrentColorUndefined \<and>
   toMemento (snd (perform exLib id (SayUno (JInt 0)) exRoundThrown)) =
     Inl CurrentColorUndefined \<and>
   perform exLib id Draw exRoundThrown =
     (None, exRoundThrown\<lparr> hands := [[NUMBERED ''RED'' 5, SKIP ''BLUE''],
                                     [NUMBERED ''BLUE'' 7, SKIP ''GREEN'']],
                           drawPileCards := [NUMBERED ''GREEN'' 1],
                           currentPlayerIndex := Some 1 \<rparr>) \<and>
   isWild (last (discardPileCards (snd (perform exLib id Draw exRoundThrown)))) \<and>
   enforcedColor (snd (perform exLib id Draw exRoundThrown)) = None \<and>
   loadRound exStore exObj = exRound \<and>
   perform exLib id (SayUno (JInt 0))
       (loadRound (snd (view_deal (discardPile exObj) exStore)) exObj) =
     (None, exRound\<lparr> discardPileCards := [],
                     unoDeclared := (\<lambda>_. False)(0 := True) \<rparr>)"
proof -
  have thrown: "play exLib id 0 None exRound = (Inl ColorMustBeSpecified, exRoundThrown)"
    by (simp add: exRound_def exRoundThrown_def eval_defs)
  have said: "perform exLib id (SayUno (JInt 0)) exRoundThrown =
      (None, exRoundThrown\<lparr> unoDeclared := (\<lambda>_. False)(0 := True) \<rparr>)"
    by (simp add: perform_def outcome_def exRound_def exRoundThrown_def eval_defs)
  have drawn: "perform exLib id Draw exRoundThrown =
      (None, exRoundThrown\<lparr> hands := [[NUMBERED ''RED'' 5, SKIP ''BLUE''],
                                      [NUMBERED ''BLUE'' 7, SKIP ''GREEN'']],
                            drawPileCards := [NUMBERED ''GREEN'' 1],
                            currentPlayerIndex := Some 1 \<rparr>)"
    by (simp add: perform_def outcome_def exRound_def exRoundThrown_def eval_defs
        const_upd_same)
  have color: "currentColor (exRoundThrown\<lparr> unoDeclared := (\<lambda>_. False)(0 := True) \<rparr>) =
      Inl CurrentColorUndefined"
    by (simp add: currentColor_def topCard_def exRoundThrown_def exRound_def)
  have snapshot: "toMemento (exRoundThrown\<lparr> unoDeclared := (\<lambda>_. False)(0 := True) \<rparr>) =
      Inl CurrentColorUndefined"
    by (simp add: toMemento_def color)
  have loaded: "loadRound exStore exObj = exRound"
    by (simp add: loadRound_def exStore_def exObj_def exRound_def)
  have emptied: "perform exLib id (SayUno (JInt 0))
        (loadRound (snd (view_deal (discardPile exObj) exStore)) exObj) =
      (None, exRound\<lparr> discardPileCards := [],
                      unoDeclared := (\<lambda>_. False)(0 := True) \<rparr>)"
    by (simp add: perform_def outcome_def loadRound_def view_deal_def discardPile_def
        exObj_def exStore_def exRound_def eval_defs)
  have top1: "isWild (last (discardPileCards
      (exRoundThrown\<lparr> unoDeclared := (\<lambda>_. False)(0 := True) \<rparr>)))"
    "enforcedColor (exRoundThrown\<lparr> unoDeclared := (\<lambda>_. False)(0 := True) \<rparr>) = None"
    by (simp_all add: exRoundThrown_def exRound_def)
  have top2: "isWild (last (discardPileCards (snd (perform exLib id Draw exRoundThrown))))"
    "enforcedColor (snd (perform exLib id Draw exRoundThrown)) = None"
    unfolding drawn by (simp_all add: exRoundThrown_def exRound_def)
  show ?thesis
    unfolding said snd_conv
    using ex_reachable thrown drawn color snapshot loaded emptied top1 top2
    unfolding said snd_conv by simp
qed

section \<open>Accusations after the end of the round\<close>

text \<open>
  Claim C10. In a reachable round that has ended, the pending-UNO window is cleared, so
  catchUnoFailure with in-bounds accuser and accused does not throw, returns false and leaves
  the state unchanged, whereas play, draw and sayUno fail because the round has finished.
\<close>

theorem catchUnoFailure_after_end:
  assumes "reachable L s" and "ended s" and "b < playerCount s" and "a < playerCount s"
  shows "pendingUno s = None \<and>
         catchUnoFailure sh (JInt (int b)) (JInt (int a)) s = (Inr False, s) \<and>
         play L sh i col s = (Inl RoundHasFinished, s) \<and>
         draw L sh s = (Inl RoundHasFinished, s) \<and>
         sayUno (JInt (int a)) s = (Inl RoundHasFinished, s)"
proof -
  note inv = roundInvD [OF reachable_inv [OF assms(1)]]
  from inv(13) [OF assms(2)] have pu: "pendingUno s = None" by simp
  have c: "catchUnoFailure sh (JInt (int b)) (JInt (int a)) s = (Inr False, s)"
    unfolding catchUnoFailure_valid [OF assms(3,4)] using pu by simp
  have p: "play L sh i col s = (Inl RoundHasFinished, s)"
    using assms(2) by (simp add: play_def andThen_apply ensureActiveRound_def)
  have d: "draw L sh s = (Inl RoundHasFinished, s)"
    using assms(2) by (simp add: draw_def andThen_apply ensureActiveRound_def)
  have u: "sayUno (JInt (int a)) s = (Inl RoundHasFinished, s)"
    using assms(2,4)
    by (simp add: sayUno_def andThen_apply ensureActiveRound_def ensurePlayerIndex_def
        ensureIndex_def)
  from pu c p d u show ?thesis by simp
qed

theorem catchUnoFailure_after_end_witness:
  "reachable exLib endedRound \<and> ended endedRound \<and> 1 < playerCount endedRound \<and>
   0 < playerCount endedRound \<and> pendingUno endedRound = None \<and>
   catchUnoFailure id (JInt (int 1)) (JInt (int 0)) endedRound = (Inr False, endedRound) \<and>
   play exLib id 0 None endedRound = (Inl RoundHasFinished, endedRound) \<and>
   draw exLib id endedRound = (Inl RoundHasFinished, endedRound) \<and>
   sayUno (JInt (int 0)) endedRound = (Inl RoundHasFinished, endedRound)"
proof -
  have h2: "ended endedRound" by (simp add: endedRound_def)
  have h3: "1 < playerCount endedRound" by (simp add: endedRound_def playerCount_def)
  have h4: "0 < playerCount endedRound" by (simp add: endedRound_def playerCount_def)
  from catchUnoFailure_after_end [OF ended_reachable h2 h3 h4, of id 0 None]
    ended_reachable h2 h3 h4 show ?thesis by simp
qed

section \<open>Drawing a card\<close>



section \<open>Refilling the draw pile\<close>

text \<open>
  Claim C6. When a card is taken from an empty draw pile: if the discard pile holds more than
  one card, the cards below its top, shuffled, become the draw pile, the top alone remains as
  the discard pile, and the front card of the new draw pile is taken (so draw succeeds in an
  active reachable round); if the discard pile holds exactly one card the operation fails
  with the replenish error.
\<close>

theorem empty_draw_pile_refill:
  assumes "drawPileCards s = []" and "isShuffle sh"
  shows "(1 < length (discardPileCards s) \<longrightarrow>
            mset (sh (butlast (discardPileCards s))) = mset (butlast (discardPileCards s)) \<and>
            takeFromDrawPile sh s =
              (Inr (hd (sh (butlast (discardPileCards s)))),
               s\<lparr> drawPileCards := tl (sh (butlast (discardPileCards s))),
                  discardPileCards := [last (discardPileCards s)] \<rparr>) \<and>
            (reachable L s \<and> \<not> ended s \<longrightarrow>
               (\<exists>t. draw L sh s = (Inr (hd (sh (butlast (discardPileCards s)))), t) \<and>
                    drawPileCards t = tl (sh (butlast (discardPileCards s))) \<and>
                    discardPileCards t = [last (discardPileCards s)]))) \<and>
         (length (discardPileCards s) = 1 \<longrightarrow>
            takeFromDrawPile sh s = (Inl CannotReplenish, s) \<and>
            (\<not> ended s \<and> currentPlayerIndex s \<noteq> None \<longrightarrow>
               fst (draw L sh s) = Inl CannotReplenish))"
proof (intro conjI impI)
  let ?d = "discardPileCards s"
  assume len: "1 < length ?d"
  show ms: "mset (sh (butlast ?d)) = mset (butlast ?d)"
    using assms(2) by (simp add: isShuffle_def)
  from len have "butlast ?d \<noteq> []" by (cases ?d rule: rev_cases) auto
  with ms have ne: "sh (butlast ?d) \<noteq> []" by (metis mset_zero_iff)
  then obtain c rest where cr: "sh (butlast ?d) = c # rest" by (cases "sh (butlast ?d)") auto
  show tk: "takeFromDrawPile sh s =
              (Inr (hd (sh (butlast ?d))),
               s\<lparr> drawPileCards := tl (sh (butlast ?d)), discardPileCards := [last ?d] \<rparr>)"
    using assms(1) len cr by (simp add: takeFromDrawPile_def refillDrawPile_def andThen_apply)
  assume r: "reachable L s \<and> \<not> ended s"
  note inv = roundInvD [OF reachable_inv [of L s]]
  from r inv(14) obtain cur where cur: "currentPlayerIndex s = Some cur" by blast
  let ?s1 = "snd (markActionBy cur s)"
  have s1: "drawPileCards ?s1 = []" "discardPileCards ?s1 = ?d"
    "?s1\<lparr> drawPileCards := tl (sh (butlast ?d)), discardPileCards := [last ?d] \<rparr> =
     snd (markActionBy cur (s\<lparr> drawPileCards := tl (sh (butlast ?d)), discardPileCards := [last ?d] \<rparr>))"
    using assms(1) by (simp_all add: markActionBy_apply)
  have tk1: "takeFromDrawPile sh ?s1 =
              (Inr (hd (sh (butlast ?d))),
               ?s1\<lparr> drawPileCards := tl (sh (butlast ?d)), discardPileCards := [last ?d] \<rparr>)"
    using s1(1,2) len cr by (simp add: takeFromDrawPile_def refillDrawPile_def andThen_apply)
  from r have I: "roundInv L s" by (simp add: reachable_inv)
  from draw_succeeds [OF I, of sh] r tk1 cur obtain t where
    t: "draw L sh s = (Inr (hd (sh (butlast ?d))), t)" by auto
  from draw_effect [OF t] assms(1) cr
  have "drawPileCards t = tl (sh (butlast ?d))" "discardPileCards t = [last ?d]" by auto
  with t show "\<exists>t. draw L sh s = (Inr (hd (sh (butlast ?d))), t) \<and>
                    drawPileCards t = tl (sh (butlast ?d)) \<and>
                    discardPileCards t = [last ?d]" by blast
next
  assume one: "length (discardPileCards s) = 1"
  show "takeFromDrawPile sh s = (Inl CannotReplenish, s)"
    using assms(1) one by (simp add: takeFromDrawPile_def refillDrawPile_def andThen_apply)
  assume a: "\<not> ended s \<and> currentPlayerIndex s \<noteq> None"
  then obtain cur where cur: "currentPlayerIndex s = Some cur" by auto
  let ?s1 = "snd (markActionBy cur s)"
  have "takeFromDrawPile sh ?s1 = (Inl CannotReplenish, ?s1)"
    using assms(1) one
    by (simp add: takeFromDrawPile_def refillDrawPile_def andThen_apply markActionBy_apply)
  with a cur show "fst (draw L sh s) = Inl CannotReplenish"
    by (simp add: draw_apply)
qed

theorem empty_draw_pile_refill_witness:
  "drawPileCards refillRound = [] \<and> isShuffle (id :: string card list \<Rightarrow> string card list) \<and>
   1 < length (discardPileCards refillRound) \<and> reachable exLib refillRound \<and>
   \<not> ended refillRound \<and>
   takeFromDrawPile id refillRound =
     (Inr (NUMBERED ''GREEN'' 1),
      refillRound\<lparr> drawPileCards := [SKIP ''BLUE''], discardPileCards := [NUMBERED ''RED'' 3] \<rparr>) \<and>
   (\<exists>t. draw exLib id refillRound = (Inr (NUMBERED ''GREEN'' 1), t) \<and>
        drawPileCards t = [SKIP ''BLUE''] \<and> discardPileCards t = [NUMBERED ''RED'' 3]) \<and>
   drawPileCards exhaustedRound = [] \<and> length (discardPileCards exhaustedRound) = 1 \<and>
   \<not> ended exhaustedRound \<and> currentPlayerIndex exhaustedRound \<noteq> None \<and>
   takeFromDrawPile id exhaustedRound = (Inl CannotReplenish, exhaustedRound) \<and>
   fst (draw exLib id exhaustedRound) = Inl CannotReplenish"
proof -
  have a1: "drawPileCards refillRound = []" by (simp add: refillRound_def)
  have a2: "1 < length (discardPileCards refillRound)" by (simp add: refillRound_def)
  have a3: "reachable exLib refillRound" by (rule reachable.created [OF refill_created])
  have a4: "\<not> ended refillRound" by (simp add: refillRound_def)
  have a5: "discardPileCards refillRound =
              [NUMBERED ''GREEN'' 1, SKIP ''BLUE'', NUMBERED ''RED'' 3]"
    by (simp add: refillRound_def)
  have b1: "drawPileCards exhaustedRound = []" by (simp add: exhaustedRound_def refillRound_def)
  have b2: "length (discardPileCards exhaustedRound) = 1"
    by (simp add: exhaustedRound_def refillRound_def)
  have b3: "\<not> ended exhaustedRound" "currentPlayerIndex exhaustedRound \<noteq> None"
    by (simp_all add: exhaustedRound_def refillRound_def)
  from empty_draw_pile_refill [OF a1 isShuffle_id, of exLib] a2 a3 a4
  have A: "takeFromDrawPile id refillRound =
              (Inr (hd (id (butlast (discardPileCards refillRound)))),
               refillRound\<lparr> drawPileCards := tl (id (butlast (discardPileCards refillRound))),
                  discardPileCards := [last (discardPileCards refillRound)] \<rparr>)"
    "\<exists>t. draw exLib id refillRound = (Inr (hd (id (butlast (discardPileCards refillRound)))), t) \<and>
                    drawPileCards t = tl (id (butlast (discardPileCards refillRound))) \<and>
                    discardPileCards t = [last (discardPileCards refillRound)]"
    by blast+
  from empty_draw_pile_refill [OF b1 isShuffle_id, of exLib] b2 b3
  have B: "takeFromDrawPile id exhaustedRound = (Inl CannotReplenish, exhaustedRound)"
    "fst (draw exLib id exhaustedRound) = Inl CannotReplenish" by blast+
  from A have A': "takeFromDrawPile id refillRound =
     (Inr (NUMBERED ''GREEN'' 1),
      refillRound\<lparr> drawPileCards := [SKIP ''BLUE''], discardPileCards := [NUMBERED ''RED'' 3] \<rparr>)"
    "\<exists>t. draw exLib id refillRound = (Inr (NUMBERED ''GREEN'' 1), t) \<and>
        drawPileCards t = [SKIP ''BLUE''] \<and> discardPileCards t = [NUMBERED ''RED'' 3]"
    unfolding a5 by simp_all
  from a1 a2 a3 a4 b1 b2 b3 A' B isShuffle_id show ?thesis by blast
qed

section \<open>Snapshot round trip\<close>

text \<open>
  Claim C3. For every reachable round, provided the library's record check only accepts
  cards whose colour belongs to the colour set, toMemento succeeds and
  createRoundFromMemento accepts its result; the round it builds equals the original with
  the UNO bookkeeping and the score cache reset, so players, hands, draw pile, discard pile,
  current player, effective colour, direction, ended status, winner and dealer are the same.
\<close>

theorem memento_round_trip:
  assumes "reachable L s" and "checksColors L"
  shows "\<exists>m s'. toMemento s = Inr m \<and> createRoundFromMemento L m = Inr s' \<and>
           s' = s\<lparr> unoDeclared := (\<lambda>_. False), pendingUno := None, cachedScore := None \<rparr> \<and>
           players s' = players s \<and> hands s' = hands s \<and>
           drawPileCards s' = drawPileCards s \<and> discardPileCards s' = discardPileCards s \<and>
           currentPlayerIndex s' = currentPlayerIndex s \<and> currentColor s' = currentColor s \<and>
           direction s' = direction s \<and> ended s' = ended s \<and> winnerIndex s' = winnerIndex s \<and>
           dealer s' = dealer s"
proof -
  from round_trip [OF reachable_inv [OF assms(1)] assms(2)] obtain m where
    m: "toMemento s = Inr m"
       "createRoundFromMemento L m =
          Inr (s\<lparr> unoDeclared := (\<lambda>_. False), pendingUno := None, cachedScore := None \<rparr>)"
    by blast
  have "currentColor (s\<lparr> unoDeclared := (\<lambda>_. False), pendingUno := None, cachedScore := None \<rparr>) =
        currentColor s"
    by (simp add: currentColor_def topCard_def split: option.splits)
  with m show ?thesis by simp
qed

theorem memento_round_trip_witness:
  "reachable exLib exRoundPlayed \<and> checksColors exLib \<and>
   (\<exists>m s'. toMemento exRoundPlayed = Inr m \<and> createRoundFromMemento exLib m = Inr s' \<and>
      s' = exRoundPlayed\<lparr> unoDeclared := (\<lambda>_. False), pendingUno := None, cachedScore := None \<rparr> \<and>
      players s' = players exRoundPlayed \<and> hands s' = hands exRoundPlayed \<and>
      drawPileCards s' = drawPileCards exRoundPlayed \<and>
      discardPileCards s' = discardPileCards exRoundPlayed \<and>
      currentPlayerIndex s' = currentPlayerIndex exRoundPlayed \<and>
      currentColor s' = currentColor exRoundPlayed \<and>
      direction s' = direction exRoundPlayed \<and> ended s' = ended exRoundPlayed \<and>
      winnerIndex s' = winnerIndex exRoundPlayed \<and> dealer s' = dealer exRoundPlayed)"
proof -
  have c: "checksColors exLib" unfolding exLib_def by (rule checksColors_specLib)
  from memento_round_trip [OF exPlayed_reachable c] exPlayed_reachable c show ?thesis by blast
qed

section \<open>Catching a missing UNO declaration\<close>

text \<open>
  Claim C7, as stated: with in-bounds indices, catchUnoFailure returns true and adds four
  cards exactly when the four conditions hold, and returns false otherwise. In the reachable
  round \<open>exRoundPlayed\<close> the four conditions hold for player 0, but only three cards can
  still be drawn: the call throws instead of returning.
\<close>

theorem catchUnoFailure_throws_when_piles_run_out:
  "reachable exLib exRoundPlayed \<and> specCatchable exRoundPlayed 0 \<and>
   fst (catchUnoFailure id (JInt 1) (JInt 0) exRoundPlayed) = Inl CannotReplenish"
  using exPlayed_reachable ex_catch_exhausted
  by (simp add: specCatchable_def exRoundPlayed_def exRound_def)

text \<open>
  Claim C7, amended. In a round with one hand per player and a shuffler that permutes its
  array, for in-bounds accuser and accused: if one of the four conditions (a window is open,
  it targets the accused, the accused has not declared, the accused holds exactly one card)
  fails, catchUnoFailure returns false and leaves the state unchanged; if all hold and at
  least four cards can still be drawn (draw pile plus discard pile below its top), it returns
  true, exactly four cards are appended to the accused's hand and the window is cleared; if
  all hold and fewer than four cards can be drawn, it fails with the replenish error. If
  accuser or accused is not an integer or not in [0, playerCount), it fails with an index
  error and leaves the state unchanged.
\<close>

theorem catchUnoFailure_outcomes:
  assumes "length (hands s) = playerCount s" and "isShuffle sh"
  shows "(b < playerCount s \<and> a < playerCount s \<and> \<not> specCatchable s a \<longrightarrow>
            catchUnoFailure sh (JInt (int b)) (JInt (int a)) s = (Inr False, s)) \<and>
         (b < playerCount s \<and> a < playerCount s \<and> specCatchable s a \<and> 4 \<le> drawable s \<longrightarrow>
            (\<exists>t cs. catchUnoFailure sh (JInt (int b)) (JInt (int a)) s = (Inr True, t) \<and>
                    length cs = 4 \<and> hands t = (hands s)[a := hands s ! a @ cs] \<and>
                    length (hands t ! a) = 5 \<and> pendingUno t = None)) \<and>
         (b < playerCount s \<and> a < playerCount s \<and> specCatchable s a \<and> drawable s < 4 \<longrightarrow>
            (\<exists>t. catchUnoFailure sh (JInt (int b)) (JInt (int a)) s = (Inl CannotReplenish, t))) \<and>
         (accuser = JNonInteger \<or> accused = JNonInteger \<or>
          (\<exists>i. (accuser = JInt i \<or> accused = JInt i) \<and> (i < 0 \<or> int (playerCount s) \<le> i)) \<longrightarrow>
            (\<exists>e. catchUnoFailure sh accuser accused s = (Inl e, s) \<and>
                 (e = MustBeInteger ''player'' \<or> e = IsOutOfBounds ''player'')))"
proof (intro conjI impI)
  assume "b < playerCount s \<and> a < playerCount s \<and> \<not> specCatchable s a"
  with assms(1) show "catchUnoFailure sh (JInt (int b)) (JInt (int a)) s = (Inr False, s)"
    by (simp add: catchUnoFailure_not_catchable)
next
  assume "b < playerCount s \<and> a < playerCount s \<and> specCatchable s a \<and> 4 \<le> drawable s"
  with catchUnoFailure_success [OF assms, of b a]
  show "\<exists>t cs. catchUnoFailure sh (JInt (int b)) (JInt (int a)) s = (Inr True, t) \<and>
                    length cs = 4 \<and> hands t = (hands s)[a := hands s ! a @ cs] \<and>
                    length (hands t ! a) = 5 \<and> pendingUno t = None" by simp
next
  assume "b < playerCount s \<and> a < playerCount s \<and> specCatchable s a \<and> drawable s < 4"
  with catchUnoFailure_exhausted [OF assms, of b a]
  show "\<exists>t. catchUnoFailure sh (JInt (int b)) (JInt (int a)) s = (Inl CannotReplenish, t)"
    by simp
next
  assume bad: "accuser = JNonInteger \<or> accused = JNonInteger \<or>
          (\<exists>i. (accuser = JInt i \<or> accused = JInt i) \<and> (i < 0 \<or> int (playerCount s) \<le> i))"
  show "\<exists>e. catchUnoFailure sh accuser accused s = (Inl e, s) \<and>
                 (e = MustBeInteger ''player'' \<or> e = IsOutOfBounds ''player'')"
  proof (cases rule: action_result_cases [of "ensurePlayerIndex accuser" s])
    case (fails e t)
    then have e: "ensurePlayerIndex accuser s = (Inl e, s)"
      "e = MustBeInteger ''player'' \<or> e = IsOutOfBounds ''player''"
      by (cases accuser; auto simp: ensurePlayerIndex_Inl_iff)+
    from catchUnoFailure_index_error [of accuser s e accused sh] e show ?thesis by blast
  next
    case (returns q t)
    then have ok: "ensurePlayerIndex accuser s = (Inr q, s)" "accuser = JInt (int q)"
      "q < playerCount s" by (auto simp: ensurePlayerIndex_Inr_iff)
    with bad have bad': "accused = JNonInteger \<or>
          (\<exists>i. accused = JInt i \<and> (i < 0 \<or> int (playerCount s) \<le> i))" by auto
    then obtain e where e: "ensurePlayerIndex accused s = (Inl e, s)"
      "e = MustBeInteger ''player'' \<or> e = IsOutOfBounds ''player''"
      by (cases accused) (auto simp: ensurePlayerIndex_Inl_iff)
    from catchUnoFailure_index_error [of accuser s e accused sh] ok(1) e show ?thesis by blast
  qed
qed

theorem catchUnoFailure_outcomes_witness:
  "length (hands exRound) = playerCount exRound \<and>
   isShuffle (id :: string card list \<Rightarrow> string card list) \<and>
   \<not> specCatchable exRound 0 \<and>
   catchUnoFailure id (JInt (int 1)) (JInt (int 0)) exRound = (Inr False, exRound) \<and>
   reachable exLib richRoundPlayed \<and>
   length (hands richRoundPlayed) = playerCount richRoundPlayed \<and>
   specCatchable richRoundPlayed 0 \<and> 4 \<le> drawable richRoundPlayed \<and>
   (\<exists>t cs. catchUnoFailure id (JInt (int 1)) (JInt (int 0)) richRoundPlayed = (Inr True, t) \<and>
           length cs = 4 \<and>
           hands t = (hands richRoundPlayed)[0 := hands richRoundPlayed ! 0 @ cs] \<and>
           length (hands t ! 0) = 5 \<and> pendingUno t = None) \<and>
   length (hands exRoundPlayed) = playerCount exRoundPlayed \<and>
   specCatchable exRoundPlayed 0 \<and> drawable exRoundPlayed < 4 \<and>
   (\<exists>t. catchUnoFailure id (JInt (int 1)) (JInt (int 0)) exRoundPlayed =
          (Inl CannotReplenish, t)) \<and>
   (\<exists>e. catchUnoFailure id (JInt 2) JNonInteger exRound = (Inl e, exRound) \<and>
        (e = MustBeInteger ''player'' \<or> e = IsOutOfBounds ''player''))"
proof -
  have a: "length (hands exRound) = playerCount exRound" "\<not> specCatchable exRound 0"
    "(1::nat) < playerCount exRound" "(0::nat) < playerCount exRound"
    by (simp_all add: exRound_def playerCount_def specCatchable_def)
  have b: "length (hands richRoundPlayed) = playerCount richRoundPlayed"
    "specCatchable richRoundPlayed 0" "4 \<le> drawable richRoundPlayed"
    "(1::nat) < playerCount richRoundPlayed" "(0::nat) < playerCount richRoundPlayed"
    by (simp_all add: richRoundPlayed_def exRoundPlayed_def exRound_def playerCount_def
        specCatchable_def drawable_def)
  have c: "length (hands exRoundPlayed) = playerCount exRoundPlayed"
    "specCatchable exRoundPlayed 0" "drawable exRoundPlayed < 4"
    "(1::nat) < playerCount exRoundPlayed" "(0::nat) < playerCount exRoundPlayed"
    by (simp_all add: exRoundPlayed_def exRound_def playerCount_def
        specCatchable_def drawable_def)
  note A = catchUnoFailure_outcomes [OF a(1) isShuffle_id, of 1 0 "JInt 2" JNonInteger]
  note B = catchUnoFailure_outcomes [OF b(1) isShuffle_id, of 1 0 "JInt 2" JNonInteger]
  note C = catchUnoFailure_outcomes [OF c(1) isShuffle_id, of 1 0 "JInt 2" JNonInteger]
  from A a have 1: "catchUnoFailure id (JInt (int 1)) (JInt (int 0)) exRound = (Inr False, exRound)"
    by blast
  from A have 4: "\<exists>e. catchUnoFailure id (JInt 2) JNonInteger exRound = (Inl e, exRound) \<and>
        (e = MustBeInteger ''player'' \<or> e = IsOutOfBounds ''player'')" by blast
  from B b have 2: "\<exists>t cs. catchUnoFailure id (JInt (int 1)) (JInt (int 0)) richRoundPlayed = (Inr True, t) \<and>
           length cs = 4 \<and>
           hands t = (hands richRoundPlayed)[0 := hands richRoundPlayed ! 0 @ cs] \<and>
           length (hands t ! 0) = 5 \<and> pendingUno t = None" by blast
  from C c have 3: "\<exists>t. catchUnoFailure id (JInt (int 1)) (JInt (int 0)) exRoundPlayed =
          (Inl CannotReplenish, t)" by blast
  from a b c 1 2 3 4 isShuffle_id richPlayed_reachable show ?thesis by blast
qed

section \<open>Failing operations\<close>

text \<open>
  Claim C1. Every public operation is atomic: when it throws, the round's observable state is
  as before the call; in particular play without a colour on a wild card, and play with a
  colour on a non-wild card, fail without mutation. The code does the colour check after the
  card has left the hand: in the reachable round \<open>exRound\<close>, playing the wild card at
  index 0 without a colour throws and leaves the wild card on the discard pile, and playing
  the red five at index 1 with a colour throws and leaves the five on the discard pile.
\<close>

theorem play_throws_after_moving_the_card:
  "reachable exLib exRound \<and>
   hands exRound ! 0 = [WILD, NUMBERED ''RED'' 5] \<and>
   discardPileCards exRound = [NUMBERED ''RED'' 3] \<and>
   play exLib id 0 None exRound =
     (Inl ColorMustBeSpecified,
      exRound\<lparr> hands := [[NUMBERED ''RED'' 5], [NUMBERED ''BLUE'' 7, SKIP ''GREEN'']],
                discardPileCards := [NUMBERED ''RED'' 3, WILD] \<rparr>) \<and>
   play exLib id 1 (Some ''RED'') exRound =
     (Inl ColorOnlyForWild,
      exRound\<lparr> hands := [[WILD], [NUMBERED ''BLUE'' 7, SKIP ''GREEN'']],
                discardPileCards := [NUMBERED ''RED'' 3, NUMBERED ''RED'' 5] \<rparr>)"
proof -
  have "play exLib id 0 None exRound =
     (Inl ColorMustBeSpecified,
      exRound\<lparr> hands := [[NUMBERED ''RED'' 5], [NUMBERED ''BLUE'' 7, SKIP ''GREEN'']],
                discardPileCards := [NUMBERED ''RED'' 3, WILD] \<rparr>)"
    by (simp add: exRound_def eval_defs)
  moreover have "play exLib id 1 (Some ''RED'') exRound =
     (Inl ColorOnlyForWild,
      exRound\<lparr> hands := [[WILD], [NUMBERED ''BLUE'' 7, SKIP ''GREEN'']],
                discardPileCards := [NUMBERED ''RED'' 3, NUMBERED ''RED'' 5] \<rparr>)"
    by (simp add: exRound_def eval_defs)
  ultimately show ?thesis using ex_reachable by (simp add: exRound_def)
qed

section \<open>What the pile views can change\<close>

text \<open>
  What the methods of a view do to the round whose arrays it was built from, for as long as
  the round keeps those arrays: deal() removes the front card of the round's pile, shuffle(f)
  replaces the pile by what f leaves in it, and size, peek and top read the round's pile.
\<close>

lemma view_methods_reach_the_round:
  assumes "drawPileCardsAt r \<noteq> discardPileCardsAt r"
  shows "fst (view_deal (drawPile r) st) = view_peek (drawPile r) st \<and>
         view_peek (drawPile r) st =
           (case drawPileCards (loadRound st r) of [] \<Rightarrow> None | c # rest \<Rightarrow> Some c) \<and>
         fst (view_deal (discardPile r) st) =
           (case discardPileCards (loadRound st r) of [] \<Rightarrow> None | c # rest \<Rightarrow> Some c) \<and>
         loadRound (snd (view_deal (drawPile r) st)) r =
           (loadRound st r)\<lparr> drawPileCards := tl (drawPileCards (loadRound st r)) \<rparr> \<and>
         loadRound (snd (view_deal (discardPile r) st)) r =
           (loadRound st r)\<lparr> discardPileCards := tl (discardPileCards (loadRound st r)) \<rparr> \<and>
         loadRound (view_shuffle (drawPile r) f st) r =
           (loadRound st r)\<lparr> drawPileCards := f (drawPileCards (loadRound st r)) \<rparr> \<and>
         loadRound (view_shuffle (discardPile r) f st) r =
           (loadRound st r)\<lparr> discardPileCards := f (discardPileCards (loadRound st r)) \<rparr> \<and>
         view_size (drawPile r) st = length (drawPileCards (loadRound st r)) \<and>
         view_size (discardPile r) st = length (discardPileCards (loadRound st r)) \<and>
         view_top (discardPile r) st = topCard (loadRound st r)"
  using assms
  by (auto simp: view_deal_def view_peek_def view_shuffle_def view_size_def view_top_def
      drawPile_def discardPile_def loadRound_def topCard_def split: list.splits)

text \<open>
  Claim C9. The pile views returned by drawPile() and discardPile() give callers no way to
  change the round's own piles: deal() or shuffle() on a view leaves the round's draw pile and
  discard pile, as later operations and toMemento() see them, unchanged. The code hands the
  round's own arrays to the views: in the store \<open>exStore\<close>, where the round object \<open>exObj\<close>
  is the round \<open>exRound\<close>, deal() on the draw-pile view removes the front card of the
  round's draw pile, so that the next snapshot differs; shuffle() on it reorders the round's
  draw pile; and deal() on the discard-pile view empties the round's discard pile, after
  which toMemento() fails on the missing top card.
\<close>

theorem view_deal_changes_the_round:
  "loadRound exStore exObj = exRound \<and>
   fst (view_deal (drawPile exObj) exStore) = Some (SKIP ''BLUE'') \<and>
   loadRound (snd (view_deal (drawPile exObj) exStore)) exObj =
     exRound\<lparr> drawPileCards := [NUMBERED ''GREEN'' 1] \<rparr> \<and>
   toMemento (loadRound (snd (view_deal (drawPile exObj) exStore)) exObj) \<noteq>
     toMemento (loadRound exStore exObj) \<and>
   loadRound (view_shuffle (drawPile exObj) rev exStore) exObj =
     exRound\<lparr> drawPileCards := [NUMBERED ''GREEN'' 1, SKIP ''BLUE''] \<rparr> \<and>
   fst (view_deal (discardPile exObj) exStore) = Some (NUMBERED ''RED'' 3) \<and>
   discardPileCards (loadRound (snd (view_deal (discardPile exObj) exStore)) exObj) = [] \<and>
   toMemento (loadRound (snd (view_deal (discardPile exObj) exStore)) exObj) = Inl TypeError"
proof -
  have emptied: "loadRound (snd (view_deal (discardPile exObj) exStore)) exObj =
      exRound\<lparr> discardPileCards := [] \<rparr>"
    by (simp add: loadRound_def exStore_def exObj_def exRound_def view_deal_def discardPile_def)
  have snapshot: "toMemento (exRound\<lparr> discardPileCards := [] \<rparr>) = Inl TypeError"
    by (simp add: toMemento_def currentColor_def topCard_def exRound_def)
  have views: "loadRound exStore exObj = exRound \<and>
      fst (view_deal (drawPile exObj) exStore) = Some (SKIP ''BLUE'') \<and>
      loadRound (snd (view_deal (drawPile exObj) exStore)) exObj =
        exRound\<lparr> drawPileCards := [NUMBERED ''GREEN'' 1] \<rparr> \<and>
      toMemento (loadRound (snd (view_deal (drawPile exObj) exStore)) exObj) \<noteq>
        toMemento (loadRound exStore exObj) \<and>
      loadRound (view_shuffle (drawPile exObj) rev exStore) exObj =
        exRound\<lparr> drawPileCards := [NUMBERED ''GREEN'' 1, SKIP ''BLUE''] \<rparr> \<and>
      fst (view_deal (discardPile exObj) exStore) = Some (NUMBERED ''RED'' 3)"
    by (simp add: loadRound_def exStore_def exObj_def exRound_def view_deal_def
        view_shuffle_def drawPile_def discardPile_def toMemento_def currentColor_def
        topCard_def)
  have e1: "discardPileCards (loadRound (snd (view_deal (discardPile exObj) exStore)) exObj) = []"
    unfolding emptied by simp
  have e2: "toMemento (loadRound (snd (view_deal (discardPile exObj) exStore)) exObj) =
      Inl TypeError"
    unfolding emptied by (rule snapshot)
  from views e1 e2 show ?thesis by blast
qed

end
